theory Spec2Isabelle
  imports Complex_Main "HOL-Library.Log_Nat"
begin

section \<open>Strings as the scripts use them\<close>

text \<open>
  A JavaScript string is modelled as a \<^typ>\<open>string\<close> whose characters are the code units
  \<open>0..255\<close> (ASCII and Latin-1). On that range \<open>toLowerCase\<close> maps \<open>A-Z\<close> and the
  accented capitals \<open>U+00C0..U+00DE\<close> (without the multiplication sign \<open>U+00D7\<close>) to the
  code unit 32 above and leaves every other code unit alone; the regular expression class
  \<open>\w\<close> is \<open>[A-Za-z0-9_]\<close>; and \<open>\s\<close> is tab, line feed, vertical tab, form feed,
  carriage return, space and the no-break space.
\<close>

definition toLowerChar :: "char \<Rightarrow> char" where
  "toLowerChar c =
     (let n = (of_char c :: nat)
      in if (65 \<le> n \<and> n \<le> 90) \<or> (192 \<le> n \<and> n \<le> 222 \<and> n \<noteq> 215)
         then char_of (n + 32) else c)"

definition toLowerCase :: "string \<Rightarrow> string" where
  "toLowerCase s = map toLowerChar s"

definition isWordChar :: "char \<Rightarrow> bool" where
  "isWordChar c =
     (let n = (of_char c :: nat)
      in (48 \<le> n \<and> n \<le> 57) \<or> (65 \<le> n \<and> n \<le> 90) \<or> n = 95 \<or> (97 \<le> n \<and> n \<le> 122))"

definition isSpaceChar :: "char \<Rightarrow> bool" where
  "isSpaceChar c = (let n = (of_char c :: nat) in (9 \<le> n \<and> n \<le> 13) \<or> n = 32 \<or> n = 160)"

text \<open>
  \<open>startsWith text s\<close>: \<open>s\<close> is read off the front of \<open>text\<close>, character by character.
  \<open>text.includes(s)\<close>: \<open>s\<close> starts at some position of \<open>text\<close> (the empty \<open>s\<close> at every
  position, also at the end).
\<close>

fun startsWith :: "string \<Rightarrow> string \<Rightarrow> bool" where
  "startsWith text [] = True"
| "startsWith [] (w # ws) = False"
| "startsWith (c # cs) (w # ws) = (if c = w then startsWith cs ws else False)"

fun includes_str :: "string \<Rightarrow> string \<Rightarrow> bool" where
  "includes_str [] s = (s = [])"
| "includes_str (c # cs) s = (if startsWith (c # cs) s then True else includes_str cs s)"

text \<open>
  \<open>text.split(/\s+/)\<close>: the pieces between maximal runs of white space. A run at the start
  or at the end of the text leaves an empty piece there, and the empty text is one empty
  piece. \<open>cur\<close> is the piece being read, \<open>inws\<close> says that the last character read was
  white space.
\<close>

fun split_ws_from :: "string \<Rightarrow> bool \<Rightarrow> string \<Rightarrow> string list" where
  "split_ws_from cur inws [] = [cur]"
| "split_ws_from cur inws (c # cs) =
     (if isSpaceChar c
      then (if inws then split_ws_from [] True cs else cur # split_ws_from [] True cs)
      else split_ws_from (cur @ [c]) False cs)"

definition split_ws :: "string \<Rightarrow> string list" where
  "split_ws s = split_ws_from [] False s"

text \<open>
  \<open>text.match(new RegExp('\\b' + word, 'gi'))\<close> on a lowercased text and a lowercase
  lexicon entry made of letters and spaces: the matches are found from left to right, each
  search resuming where the previous match ended. A match starts at a position where the
  entry starts and that is a word boundary (exactly one of the characters before and at the
  position is a word character; outside the text counts as no word character). No entry
  of the lexicons is empty, so every match passes over a character.
  \<open>skip\<close> counts the characters of the last match still to be passed over, \<open>prev\<close> is the
  character before the position.
\<close>

definition wordBoundary :: "char option \<Rightarrow> char option \<Rightarrow> bool" where
  "wordBoundary prev cur =
     ((case prev of None \<Rightarrow> False | Some c \<Rightarrow> isWordChar c)
        \<noteq> (case cur of None \<Rightarrow> False | Some c \<Rightarrow> isWordChar c))"

fun match_count_from :: "string \<Rightarrow> nat \<Rightarrow> char option \<Rightarrow> string \<Rightarrow> nat" where
  "match_count_from word skip prev [] = 0"
| "match_count_from word skip prev (c # cs) =
     (if 0 < skip then match_count_from word (skip - 1) (Some c) cs
      else if (if startsWith (c # cs) word then wordBoundary prev (Some c) else False)
      then 1 + match_count_from word (length word - 1) (Some c) cs
      else match_count_from word 0 (Some c) cs)"

definition match_count :: "string \<Rightarrow> string \<Rightarrow> nat" where
  "match_count word text = match_count_from word 0 None text"

section \<open>Sentiment scorer (scout.js)\<close>

definition POSITIVE_WORDS :: "string list" where
  "POSITIVE_WORDS =
    [''love'', ''amazing'', ''great'', ''awesome'', ''excellent'', ''fantastic'',
     ''perfect'', ''best'', ''wonderful'', ''incredible'', ''brilliant'', ''outstanding'',
     ''happy'', ''satisfied'', ''impressed'', ''recommend'', ''thank'', ''thanks'',
     ''helpful'', ''useful'', ''solved'', ''works great'', ''game changer'', ''life saver'']"

definition NEGATIVE_WORDS :: "string list" where
  "NEGATIVE_WORDS =
    [''hate'', ''terrible'', ''awful'', ''horrible'', ''worst'', ''bad'', ''poor'',
     ''disappointed'', ''frustrat'', ''annoyed'', ''angry'', ''useless'', ''broken'',
     ''bug'', ''issue'', ''problem'', ''fail'', ''crash'', ''slow'', ''expensive'',
     ''scam'', ''waste'', ''regret'', ''avoid'', ''sucks'', ''ridiculous'']"

definition NEGATION_WORDS :: "string list" where
  "NEGATION_WORDS =
    [''not'', ''don't'', ''doesn't'', ''didn't'', ''won't'', ''can't'', ''never'', ''no'']"

datatype label = Positive | Negative | Neutral

record sentiment =
  label :: label
  compound :: rat
  positive :: int
  negative :: int

text \<open>The two loops over the lexicons: every entry adds the number of its matches.\<close>

definition lexicon_hits :: "string list \<Rightarrow> string \<Rightarrow> int" where
  "lexicon_hits lexicon lowerText = (\<Sum>word\<leftarrow>lexicon. int (match_count word lowerText))"

text \<open>
  The negation loop, over the pairs \<open>words[i], words[i + 1]\<close> in order: after a negation
  word, a next piece that contains a positive entry moves one hit from the positive to the
  negative score, and one that contains a negative entry moves one hit back.
\<close>

definition flip_after_negation :: "string \<Rightarrow> string \<Rightarrow> int \<times> int \<Rightarrow> int \<times> int" where
  "flip_after_negation w nxt pn =
     (if w \<in> set NEGATION_WORDS
      then (let pn1 = (if list_ex (\<lambda>pw. includes_str nxt pw) POSITIVE_WORDS
                       then (fst pn - 1, snd pn + 1) else pn)
            in if list_ex (\<lambda>nw. includes_str nxt nw) NEGATIVE_WORDS
               then (fst pn1 + 1, snd pn1 - 1) else pn1)
      else pn)"

fun negation_loop :: "string list \<Rightarrow> int \<times> int \<Rightarrow> int \<times> int" where
  "negation_loop (w # nxt # ws) pn = negation_loop (nxt # ws) (flip_after_negation w nxt pn)"
| "negation_loop ws pn = pn"

text \<open>
  JavaScript numbers are IEEE 754 doubles. A double is modelled by the rational number it
  denotes, and \<open>fl x\<close> is the double nearest to the rational \<open>x\<close>, ties going to the
  even mantissa, which is the result of every arithmetic operation of the code on the exact
  result \<open>x\<close>: \<open>binade x\<close> is the exponent \<open>e\<close> with \<open>2^e \<le> x < 2^(e + 1)\<close>, and the
  mantissa \<open>x / 2^(e - 52)\<close> is rounded to an integer of 53 bits. The range of the
  exponent is not bounded: no number computed from hit counts is near an overflow or a
  subnormal. The hit counts are integers, which doubles hold exactly below \<open>2^53\<close>.
\<close>

definition pow2 :: "int \<Rightarrow> rat" where
  "pow2 e = (if 0 \<le> e then 2 ^ nat e else 1 / 2 ^ nat (- e))"

definition round_half_even :: "rat \<Rightarrow> int" where
  "round_half_even m =
     (let f = \<lfloor>m\<rfloor>; d = m - of_int f
      in if d < 1 / 2 then f else if 1 / 2 < d then f + 1 else if even f then f else f + 1)"

definition binade :: "rat \<Rightarrow> int" where
  "binade x =
     (let k = bitlen (fst (quotient_of x)) - bitlen (snd (quotient_of x))
      in if pow2 k \<le> x then k else k - 1)"

definition fl :: "rat \<Rightarrow> rat" where
  "fl x =
     (if x = 0 then 0
      else (let e = binade \<bar>x\<bar>;
                q = round_half_even (\<bar>x\<bar> * pow2 (52 - e))
            in sgn x * of_int q * pow2 (e - 52)))"

text \<open>
  \<open>round2 c\<close> is \<open>Math.round(compound * 100) / 100\<close> where \<open>compound\<close> is the double
  that the division \<open>(positiveScore - negativeScore) / total\<close> yields for the exact
  quotient \<open>c\<close>: the quotient is rounded to a double, its product with 100 is rounded,
  \<open>Math.round\<close> takes the integer \<open>\<lfloor>y + 1/2\<rfloor>\<close> of that double \<open>y\<close> exactly (ties go
  up), and the division by 100 is rounded. \<open>raw_compound\<close> is the exact quotient, \<open>0\<close>
  unless \<open>total > 0\<close>. The label is decided on the exact quotient: the comparisons
  \<open>compound >= 0.2\<close> and \<open>compound <= -0.2\<close> of the code, between doubles, give the same
  answers for every total up to \<open>2^50\<close> (lemma \<open>double_comparison\<close> below).
\<close>

definition round2 :: "rat \<Rightarrow> rat" where
  "round2 x = fl (of_int \<lfloor>fl (fl x * 100) + 1 / 2\<rfloor> / 100)"

definition raw_compound :: "int \<Rightarrow> int \<Rightarrow> rat" where
  "raw_compound p n = (if 0 < p + n then of_int (p - n) / of_int (p + n) else 0)"

definition label_of :: "rat \<Rightarrow> label" where
  "label_of c = (if c \<ge> 2 / 10 then Positive else if c \<le> - (2 / 10) then Negative else Neutral)"

definition analyzeSentiment :: "string \<Rightarrow> sentiment" where
  "analyzeSentiment text =
     (let lowerText = toLowerCase text;
          words = split_ws lowerText;
          positiveScore = lexicon_hits POSITIVE_WORDS lowerText;
          negativeScore = lexicon_hits NEGATIVE_WORDS lowerText;
          pn = negation_loop words (positiveScore, negativeScore);
          c = raw_compound (fst pn) (snd pn)
      in \<lparr> label = label_of c, compound = round2 c, positive = fst pn, negative = snd pn \<rparr>)"

section \<open>Sentiment scorer (notify.js)\<close>

text \<open>
  The notifier has its own scorer over the same two lexicons: an entry counts once when the
  lowercased text contains it anywhere (\<open>lowerText.includes(word)\<close>), there is no negation
  loop, and the result carries the label and the rounded compound only.
\<close>

record notify_sentiment =
  n_label :: label
  n_compound :: rat

definition substring_hits :: "string list \<Rightarrow> string \<Rightarrow> int" where
  "substring_hits lexicon lowerText =
     int (length (filter (\<lambda>word. includes_str lowerText word) lexicon))"

definition notify_analyzeSentiment :: "string \<Rightarrow> notify_sentiment" where
  "notify_analyzeSentiment text =
     (let lowerText = toLowerCase text;
          positiveScore = substring_hits POSITIVE_WORDS lowerText;
          negativeScore = substring_hits NEGATIVE_WORDS lowerText;
          c = raw_compound positiveScore negativeScore
      in \<lparr> n_label = label_of c, n_compound = round2 c \<rparr>)"

text \<open>An input on which the scorer counts 49 positive and 33 negative hits.\<close>

definition boundary_text :: string where
  "boundary_text = concat (replicate 49 ''love '') @ concat (replicate 33 ''bad '')"

text \<open>An input on which the scorer counts 63 positive and 17 negative hits.\<close>

definition rounding_text :: string where
  "rounding_text = concat (replicate 63 ''love '') @ concat (replicate 17 ''bad '')"

section \<open>What a fetch returns\<close>

text \<open>
  The scripts read a subreddit's listing over HTTP. A fetch either fails on the network
  (the \<open>fetch\<close> promise rejects), answers with a status that is not OK, or yields the
  listing's children. Each child has a kind and the post's data; \<open>selftext\<close> and the flair
  may be absent. Times are integers: \<open>created_utc\<close> in seconds, everything else in
  milliseconds since the epoch. \<open>new Date(ms).toISOString()\<close> throws a RangeError outside
  the range of a JavaScript date.
\<close>

record child =
  kind :: string
  data_id :: string
  data_title :: string
  data_selftext :: "string option"
  data_score :: int
  num_comments :: int
  data_author :: string
  created_utc :: int
  permalink :: string
  link_flair_text :: "string option"

datatype fetch_result = NetworkError | NotOk | Listing "child list"

definition valid_date :: "int \<Rightarrow> bool" where
  "valid_date ms = (- 8640000000000000 \<le> ms \<and> ms \<le> 8640000000000000)"

text \<open>\<open>`${p.title} ${p.selftext || ''}`\<close>\<close>

definition child_text :: "child \<Rightarrow> string" where
  "child_text p = data_title p @ '' '' @ (case data_selftext p of None \<Rightarrow> [] | Some t \<Rightarrow> t)"

section \<open>Pain point detection (scout.js)\<close>

definition PAIN_SIGNALS :: "(string \<times> string list) list" where
  "PAIN_SIGNALS =
    [(''helpSeeking'',
        [''looking for'', ''need help'', ''anyone know'', ''can someone'',
         ''how do i'', ''how can i'', ''is there a'', ''does anyone'',
         ''please help'', ''stuck on'', ''cant figure out'', ''can't figure out'',
         ''any advice'', ''suggestions for'', ''tips for'', ''help me'']),
     (''frustration'',
        [''frustrated'', ''hate when'', ''wish there was'', ''struggling with'',
         ''annoyed by'', ''sick of'', ''tired of'', ''fed up with'',
         ''drives me crazy'', ''pain point'', ''nightmare'', ''worst part'']),
     (''alternatives'',
        [''recommend'', ''alternative to'', ''better than'', ''instead of'',
         ''switching from'', ''moved away from'', ''replacement for'', ''similar to'',
         ''like X but'', ''comparable to'', ''competitor to'']),
     (''hiring'',
        [''hiring'', ''for hire'', ''job'', ''looking to hire'',
         ''need a developer'', ''need a designer'', ''looking for freelancer'',
         ''contract work'', ''remote position'', ''open position'']),
     (''pricing'',
        [''too expensive'', ''overpriced'', ''price increase'', ''pricing is'',
         ''cost too much'', ''cheaper alternative'', ''free alternative'',
         ''not worth the price'', ''budget friendly'', ''affordable option'',
         ''subscription fatigue'', ''price hike'', ''raised prices'']),
     (''featureRequests'',
        [''wish it had'', ''feature request'', ''would be nice if'',
         ''missing feature'', ''needs to add'', ''should have'', ''hope they add'',
         ''why cant'', ''why can't'', ''feature suggestion'', ''roadmap'',
         ''planned feature'', ''coming soon'']),
     (''comparison'',
        [''vs'', ''versus'', ''compared to'', ''comparison'', ''which is better'',
         ''should i use'', ''should i choose'', ''or should i'', ''deciding between'',
         ''pros and cons'', ''which one'', ''differences between''])]"

text \<open>\<open>Object.values(catalog).flat()\<close>\<close>

definition all_signals :: "(string \<times> string list) list \<Rightarrow> string list" where
  "all_signals catalog = concat (map snd catalog)"

definition ALL_PAIN_SIGNALS :: "string list" where
  "ALL_PAIN_SIGNALS = all_signals PAIN_SIGNALS"

text \<open>
  A post as \<open>extractPosts\<close> builds it from a child of kind \<open>t3\<close>: the self text is cut to
  500 characters, and an absent or empty one is the empty string; an absent or empty flair
  is \<open>null\<close>. The field \<open>created\<close>, the date as text, is left out, but the array \<open>map\<close>
  throws when one of the dates is out of range, so the function yields no list then.
\<close>

record post =
  post_id :: string
  title :: string
  selftext :: string
  score :: int
  numComments :: int
  author :: string
  createdUtc :: int
  url :: string
  flair :: "string option"

definition extract_post :: "child \<Rightarrow> post" where
  "extract_post c =
     \<lparr> post_id = data_id c, title = data_title c,
       selftext = (case data_selftext c of None \<Rightarrow> [] | Some t \<Rightarrow> take 500 t),
       score = data_score c, numComments = num_comments c, author = data_author c,
       createdUtc = created_utc c, url = ''https://reddit.com'' @ permalink c,
       flair = (case link_flair_text c of None \<Rightarrow> None
                | Some f \<Rightarrow> if f = [] then None else Some f) \<rparr>"

definition extractPosts :: "child list \<Rightarrow> post list option" where
  "extractPosts children =
     (let t3 = filter (\<lambda>c. kind c = ''t3'') children
      in if list_all (\<lambda>c. valid_date (created_utc c * 1000)) t3
         then Some (map extract_post t3) else None)"

text \<open>\<open>`${p.title} ${p.selftext}`\<close> and its lowercased form.\<close>

definition post_text :: "post \<Rightarrow> string" where
  "post_text p = title p @ '' '' @ selftext p"

definition post_lowerText :: "post \<Rightarrow> string" where
  "post_lowerText p = toLowerCase (post_text p)"

text \<open>
  An element of \<open>detectPainPoints\<close>' result: the post with the matched signals, the
  matched signals by category (an object, here the list of its entries in insertion
  order) and, when asked for, the sentiment. The catalog is a parameter of the model;
  the script's function is the instance at \<open>PAIN_SIGNALS\<close>.
\<close>

record pain_point =
  pp_post :: post
  signals :: "string list"
  categories :: "(string \<times> string list) list"
  pp_sentiment :: "sentiment option"

definition has_signal :: "(string \<times> string list) list \<Rightarrow> post \<Rightarrow> bool" where
  "has_signal catalog p = list_ex (\<lambda>signal. includes_str (post_lowerText p) signal) (all_signals catalog)"

definition matched_categories :: "(string \<times> string list) list \<Rightarrow> string \<Rightarrow> (string \<times> string list) list" where
  "matched_categories catalog lowerText =
     filter (\<lambda>(category, matched). matched \<noteq> [])
       (map (\<lambda>(category, sigs). (category, filter (\<lambda>s. includes_str lowerText s) sigs)) catalog)"

definition annotate :: "(string \<times> string list) list \<Rightarrow> bool \<Rightarrow> post \<Rightarrow> pain_point" where
  "annotate catalog includeSentiment p =
     \<lparr> pp_post = p,
       signals = filter (\<lambda>s. includes_str (post_lowerText p) s) (all_signals catalog),
       categories = matched_categories catalog (post_lowerText p),
       pp_sentiment = (if includeSentiment then Some (analyzeSentiment (post_text p)) else None) \<rparr>"

definition detectPainPoints_in :: "(string \<times> string list) list \<Rightarrow> post list \<Rightarrow> bool \<Rightarrow> pain_point list" where
  "detectPainPoints_in catalog posts includeSentiment =
     map (annotate catalog includeSentiment) (filter (has_signal catalog) posts)"

definition detectPainPoints :: "post list \<Rightarrow> bool \<Rightarrow> pain_point list" where
  "detectPainPoints posts includeSentiment = detectPainPoints_in PAIN_SIGNALS posts includeSentiment"

section \<open>Daily digest (scout.js)\<close>

text \<open>
  \<open>generateDailyDigest\<close> visits the subreddits, given as the list that splitting the
  argument at the commas yields, in order. A fetch that fails, or a listing
  whose posts cannot be extracted, throws inside the \<open>try\<close> and the subreddit is skipped.
  Otherwise the posts created at or after the cutoff are appended to \<open>allPosts\<close> and their
  pain points to \<open>allPainPoints\<close>, both tagged with the subreddit. Of the digest, the
  model keeps the two totals and the sentiment overview; the opportunities, the category
  breakdown, the per-subreddit statistics and the highlights are left out.
\<close>

record label_counts =
  count_positive :: nat
  count_negative :: nat
  count_neutral :: nat

definition count_labels :: "label option list \<Rightarrow> label_counts" where
  "count_labels ls =
     \<lparr> count_positive = length (filter (\<lambda>l. l = Some Positive) ls),
       count_negative = length (filter (\<lambda>l. l = Some Negative) ls),
       count_neutral = length (filter (\<lambda>l. l = Some Neutral) ls) \<rparr>"

record daily_digest =
  totalPosts :: nat
  totalPainPoints :: nat
  sentimentOverview :: label_counts

definition recentPosts :: "int \<Rightarrow> post list \<Rightarrow> post list" where
  "recentPosts cutoff posts = filter (\<lambda>p. createdUtc p * 1000 \<ge> cutoff) posts"

fun digest_loop ::
  "(string \<Rightarrow> fetch_result) \<Rightarrow> int \<Rightarrow> string list
     \<Rightarrow> (string \<times> post) list \<times> (string \<times> pain_point) list
     \<Rightarrow> (string \<times> post) list \<times> (string \<times> pain_point) list" where
  "digest_loop fetch cutoff [] acc = acc"
| "digest_loop fetch cutoff (sub # subs) acc =
     (case fetch sub of
        Listing children \<Rightarrow>
          (case extractPosts children of
             Some posts \<Rightarrow>
               (let recent = recentPosts cutoff posts
                in digest_loop fetch cutoff subs
                     (fst acc @ map (Pair sub) recent,
                      snd acc @ map (Pair sub) (detectPainPoints recent True)))
           | None \<Rightarrow> digest_loop fetch cutoff subs acc)
      | _ \<Rightarrow> digest_loop fetch cutoff subs acc)"

definition generateDailyDigest ::
  "(string \<Rightarrow> fetch_result) \<Rightarrow> int \<Rightarrow> int \<Rightarrow> string list \<Rightarrow> daily_digest" where
  "generateDailyDigest fetch now hours subs =
     (let cutoff = now - hours * 60 * 60 * 1000;
          acc = digest_loop fetch cutoff subs ([], []);
          allPosts = fst acc;
          allPainPoints = snd acc
      in \<lparr> totalPosts = length allPosts,
           totalPainPoints = length allPainPoints,
           sentimentOverview =
             count_labels (map (\<lambda>p. map_option label (pp_sentiment (snd p))) allPainPoints) \<rparr>)"

section \<open>Persisted files\<close>

text \<open>
  Every script keeps its state in JSON files. \<open>loadJSON(file, defaultVal)\<close> yields the
  default when the file is missing or unreadable, so a file is modelled by an optional
  value; \<open>saveJSON\<close> replaces it.
\<close>

definition loadJSON :: "'a option \<Rightarrow> 'a \<Rightarrow> 'a" where
  "loadJSON file defaultVal = (case file of None \<Rightarrow> defaultVal | Some v \<Rightarrow> v)"

text \<open>\<open>xs.findIndex(P)\<close>: the first index whose element satisfies \<open>P\<close>; \<open>None\<close> is \<open>-1\<close>.\<close>

fun findIndex :: "('a \<Rightarrow> bool) \<Rightarrow> 'a list \<Rightarrow> nat option" where
  "findIndex P [] = None"
| "findIndex P (x # xs) = (if P x then Some 0 else map_option Suc (findIndex P xs))"

section \<open>Seen set (notify.js)\<close>

text \<open>
  The notifier keeps the keys it has reported in a JavaScript \<open>Set\<close>, modelled as the
  list of its elements in insertion order, without repetition. \<open>has\<close> is \<open>seen.has(k)\<close>.
  \<open>markSeen\<close> is \<open>seen.add(k)\<close>, which appends a value that is not yet there and leaves
  the set alone otherwise. \<open>new Set(array)\<close> adds the array's elements one by one, and
  \<open>load_seen\<close> is \<open>new Set(loadJSON(SEEN_FILE, []))\<close>. \<open>flush\<close> is the value that
  \<open>saveJSON(SEEN_FILE, [...seen].slice(-1000))\<close> writes: the last 1000 elements of the
  insertion order.
\<close>

definition has :: "'k list \<Rightarrow> 'k \<Rightarrow> bool" where
  "has seen k = (k \<in> set seen)"

definition markSeen :: "'k list \<Rightarrow> 'k \<Rightarrow> 'k list" where
  "markSeen seen k = (if has seen k then seen else seen @ [k])"

definition new_Set :: "'k list \<Rightarrow> 'k list" where
  "new_Set array = foldl markSeen [] array"

definition load_seen :: "'k list option \<Rightarrow> 'k list" where
  "load_seen seen_file = new_Set (loadJSON seen_file [])"

definition flush :: "'k list \<Rightarrow> 'k list option" where
  "flush seen = Some (drop (length seen - 1000) seen)"

section \<open>Digest of the notifier (notify.js)\<close>

record alert =
  alert_id :: string
  alert_keywords :: "string list"
  alert_subreddits :: "string list"
  alert_createdAt :: int
  enabled :: bool
  notifyVia :: string
  lastChecked :: "int option"
  matchCount :: int

text \<open>
  \<open>generateDigest\<close> reads the subreddits of the enabled alerts, each once, and returns
  \<open>null\<close> when there is none. \<open>fetchSubreddit\<close> yields no posts for an answer that is not
  OK; a network error throws and the subreddit is skipped. Every child created within the
  last 24 hours is kept with its sentiment, and the statistics count the labels of all the
  kept posts. The model keeps the subreddits and the statistics of the digest and leaves
  out the top posts.
\<close>

record notify_digest =
  digest_subreddits :: "string list"
  stats_totalPosts :: nat
  stats_sentiment :: label_counts

definition fetchSubreddit :: "(string \<Rightarrow> fetch_result) \<Rightarrow> string \<Rightarrow> child list option" where
  "fetchSubreddit fetch subreddit =
     (case fetch subreddit of
        NetworkError \<Rightarrow> None
      | NotOk \<Rightarrow> Some []
      | Listing children \<Rightarrow> Some children)"

definition digest_posts :: "(string \<Rightarrow> fetch_result) \<Rightarrow> int \<Rightarrow> string list \<Rightarrow> child list" where
  "digest_posts fetch cutoff subs =
     concat (map (\<lambda>sub. case fetchSubreddit fetch sub of
                            None \<Rightarrow> []
                          | Some posts \<Rightarrow> filter (\<lambda>p. created_utc p * 1000 \<ge> cutoff) posts) subs)"

definition generateDigest ::
  "alert list option \<Rightarrow> (string \<Rightarrow> fetch_result) \<Rightarrow> int \<Rightarrow> notify_digest option" where
  "generateDigest alerts_file fetch now =
     (let alerts = filter enabled (loadJSON alerts_file []);
          subs = new_Set (concat (map alert_subreddits alerts))
      in if subs = [] then None
         else (let cutoff = now - 24 * 60 * 60 * 1000;
                   allPosts = digest_posts fetch cutoff subs;
                   sentiments = map (\<lambda>p. Some (n_label (notify_analyzeSentiment (child_text p)))) allPosts
               in Some \<lparr> digest_subreddits = subs,
                         stats_totalPosts = length allPosts,
                         stats_sentiment = count_labels sentiments \<rparr>))"

section \<open>Keyword alerts of the notifier (notify.js)\<close>

text \<open>
  \<open>checkAlerts\<close> of the notifier walks the enabled alerts, their subreddits and the
  fetched posts with one seen set, loaded at the start. A post whose id is in the set is
  skipped; a post that matches a keyword of the alert is reported and its id added.
  The set is written back, cut to its last 1000 elements, at the end.
\<close>

record notify_match =
  nm_subreddit :: string
  nm_keywords :: "string list"
  nm_title :: string
  nm_url :: string
  nm_author :: string
  nm_score :: int
  nm_sentiment :: notify_sentiment

definition matchedKeywords :: "alert \<Rightarrow> string \<Rightarrow> string list" where
  "matchedKeywords a lowerText =
     filter (\<lambda>kw. includes_str lowerText (toLowerCase kw)) (alert_keywords a)"

fun notify_scan ::
  "alert \<Rightarrow> string \<Rightarrow> child list \<Rightarrow> string list \<times> notify_match list
     \<Rightarrow> string list \<times> notify_match list" where
  "notify_scan a sub [] st = st"
| "notify_scan a sub (p # ps) st =
     (if has (fst st) (data_id p) then notify_scan a sub ps st
      else (let kws = matchedKeywords a (toLowerCase (child_text p))
            in if kws \<noteq> []
               then notify_scan a sub ps
                      (markSeen (fst st) (data_id p),
                       snd st @ [\<lparr> nm_subreddit = sub, nm_keywords = kws,
                                   nm_title = take 100 (data_title p),
                                   nm_url = ''https://reddit.com'' @ permalink p,
                                   nm_author = data_author p, nm_score = data_score p,
                                   nm_sentiment = notify_analyzeSentiment (child_text p) \<rparr>])
               else notify_scan a sub ps st))"

definition notify_alert ::
  "(string \<Rightarrow> fetch_result) \<Rightarrow> string list \<times> notify_match list \<Rightarrow> alert
     \<Rightarrow> string list \<times> notify_match list" where
  "notify_alert fetch st a =
     foldl (\<lambda>st sub. case fetchSubreddit fetch sub of
                        None \<Rightarrow> st
                      | Some posts \<Rightarrow> notify_scan a sub posts st)
       st (alert_subreddits a)"

definition notify_checkAlerts ::
  "alert list option \<Rightarrow> string list option \<Rightarrow> (string \<Rightarrow> fetch_result)
     \<Rightarrow> notify_match list \<times> string list option" where
  "notify_checkAlerts alerts_file seen_file fetch =
     (let alerts = filter enabled (loadJSON alerts_file []);
          st = foldl (notify_alert fetch) (load_seen seen_file, []) alerts
      in (snd st, flush (fst st)))"

section \<open>Competitor mentions and the default command (notify.js)\<close>








section \<open>Scheduled posts and keyword alerts (scheduler.js)\<close>

datatype status = Pending | Posted | Failed | Cancelled

record scheduled_post =
  sp_id :: string
  sp_subreddit :: string
  sp_title :: string
  content :: string
  scheduledTime :: int
  sp_createdAt :: int
  status :: status
  sp_flair :: "string option"
  nsfw :: bool
  spoiler :: bool
  cancelledAt :: "int option"
  postedAt :: "int option"
  redditUrl :: "string option"

record files =
  schedule_file :: "scheduled_post list option"
  alerts_file :: "alert list option"
  history_file :: "scheduled_post list option"

datatype js_error = RangeError

text \<open>
  \<open>addScheduledPost\<close>, called without options as the command line does: the id and the
  clock are parameters, and the scheduled time is given as the parsed date, \<open>None\<close> for a
  string that is no date. Such a date, or one out of range, throws in \<open>toISOString\<close>
  before anything is written.
\<close>

definition addScheduledPost ::
  "string \<Rightarrow> int \<Rightarrow> string \<Rightarrow> string \<Rightarrow> string \<Rightarrow> int option \<Rightarrow> files
     \<Rightarrow> js_error + (scheduled_post \<times> files)" where
  "addScheduledPost new_id now subreddit ttl cont scheduled fs =
     (let posts = loadJSON (schedule_file fs) []
      in case scheduled of
           None \<Rightarrow> Inl RangeError
         | Some t \<Rightarrow>
             if \<not> valid_date t then Inl RangeError
             else (let p = \<lparr> sp_id = new_id, sp_subreddit = subreddit, sp_title = ttl,
                              content = cont, scheduledTime = t, sp_createdAt = now,
                              status = Pending, sp_flair = None, nsfw = False, spoiler = False,
                              cancelledAt = None, postedAt = None, redditUrl = None \<rparr>
                   in Inr (p, fs\<lparr> schedule_file := Some (posts @ [p]) \<rparr>)))"

definition cancelPost :: "string \<Rightarrow> int \<Rightarrow> files \<Rightarrow> scheduled_post option \<times> files" where
  "cancelPost i now fs =
     (let posts = loadJSON (schedule_file fs) []
      in case findIndex (\<lambda>p. sp_id p = i) posts of
           None \<Rightarrow> (None, fs)
         | Some idx \<Rightarrow>
             (let p = (posts ! idx)\<lparr> status := Cancelled, cancelledAt := Some now \<rparr>
              in (Some p, fs\<lparr> schedule_file := Some (posts[idx := p]) \<rparr>)))"

definition getDuePosts :: "int \<Rightarrow> files \<Rightarrow> scheduled_post list" where
  "getDuePosts now fs =
     filter (\<lambda>p. status p = Pending \<and> scheduledTime p \<le> now) (loadJSON (schedule_file fs) [])"

text \<open>\<open>if (redditUrl)\<close> holds for a string that is present and not empty.\<close>

definition markPosted ::
  "string \<Rightarrow> string option \<Rightarrow> int \<Rightarrow> files \<Rightarrow> scheduled_post option \<times> files" where
  "markPosted i url_arg now fs =
     (let posts = loadJSON (schedule_file fs) []
      in case findIndex (\<lambda>p. sp_id p = i) posts of
           None \<Rightarrow> (None, fs)
         | Some idx \<Rightarrow>
             (let p1 = (posts ! idx)\<lparr> status := Posted, postedAt := Some now \<rparr>;
                  p = (case url_arg of
                         None \<Rightarrow> p1
                       | Some u \<Rightarrow> if u = [] then p1 else p1\<lparr> redditUrl := Some u \<rparr>);
                  fs1 = fs\<lparr> schedule_file := Some (posts[idx := p]) \<rparr>;
                  history = loadJSON (history_file fs1) []
              in (Some p, fs1\<lparr> history_file := Some (history @ [p]) \<rparr>)))"

definition toggleAlert :: "string \<Rightarrow> bool \<Rightarrow> files \<Rightarrow> alert option \<times> files" where
  "toggleAlert i en fs =
     (let alerts = loadJSON (alerts_file fs) []
      in case findIndex (\<lambda>a. alert_id a = i) alerts of
           None \<Rightarrow> (None, fs)
         | Some idx \<Rightarrow>
             (let a = (alerts ! idx)\<lparr> enabled := en \<rparr>
              in (Some a, fs\<lparr> alerts_file := Some (alerts[idx := a]) \<rparr>)))"

text \<open>
  The commands \<open>post add\<close>, \<open>post cancel\<close>, \<open>post mark-posted\<close> and \<open>post due\<close> of the
  command line, as one step on the files. A command that throws leaves them as they are.
\<close>

datatype post_command =
    Add string string string string "int option"
  | Cancel string
  | MarkPosted string "string option"
  | Due

fun run_command :: "int \<Rightarrow> post_command \<Rightarrow> files \<Rightarrow> files" where
  "run_command now (Add new_id subreddit ttl cont scheduled) fs =
     (case addScheduledPost new_id now subreddit ttl cont scheduled fs of
        Inl e \<Rightarrow> fs | Inr r \<Rightarrow> snd r)"
| "run_command now (Cancel i) fs = snd (cancelPost i now fs)"
| "run_command now (MarkPosted i url_arg) fs = snd (markPosted i url_arg now fs)"
| "run_command now Due fs = fs"

text \<open>
  \<open>checkAlerts\<close> of the scheduler. For every enabled alert and each of its subreddits the
  listing is fetched; an answer that is not OK and a network error both leave the
  subreddit without matches. Every post whose lowercased title and self text contain a
  keyword of the alert is pushed to \<open>matches\<close>; a date out of range throws while the match
  is built, which ends the subreddit's loop. After the subreddits of an alert, the first
  stored alert with the same id gets the time of the check and has its \<open>matchCount\<close>
  raised by the number of collected matches that carry the alert's id.
\<close>

record alert_match =
  alertId :: string
  match_keywords :: "string list"
  match_subreddit :: string
  match_post_id :: string
  match_title :: string
  match_url :: string
  match_author :: string
  match_created :: int
  match_score :: int

fun scan_children :: "alert \<Rightarrow> string \<Rightarrow> child list \<Rightarrow> alert_match list" where
  "scan_children a sub [] = []"
| "scan_children a sub (p # ps) =
     (let kws = matchedKeywords a (toLowerCase (child_text p))
      in if kws \<noteq> []
         then (if valid_date (created_utc p * 1000)
               then \<lparr> alertId = alert_id a, match_keywords = kws, match_subreddit = sub,
                      match_post_id = data_id p, match_title = data_title p,
                      match_url = ''https://reddit.com'' @ permalink p,
                      match_author = data_author p, match_created = created_utc p * 1000,
                      match_score = data_score p \<rparr> # scan_children a sub ps
               else [])
         else scan_children a sub ps)"

definition check_subreddit :: "(string \<Rightarrow> fetch_result) \<Rightarrow> alert \<Rightarrow> string \<Rightarrow> alert_match list" where
  "check_subreddit fetch a sub =
     (case fetch sub of Listing children \<Rightarrow> scan_children a sub children | _ \<Rightarrow> [])"

definition stamp_alert :: "int \<Rightarrow> alert \<Rightarrow> alert_match list \<Rightarrow> alert list \<Rightarrow> alert list" where
  "stamp_alert now a matches alerts =
     (case findIndex (\<lambda>x. alert_id x = alert_id a) alerts of
        None \<Rightarrow> alerts
      | Some idx \<Rightarrow>
          alerts[idx := (alerts ! idx)
            \<lparr> lastChecked := Some now,
              matchCount := matchCount (alerts ! idx)
                 + int (length (filter (\<lambda>m. alertId m = alert_id a) matches)) \<rparr>])"

fun check_loop ::
  "(string \<Rightarrow> fetch_result) \<Rightarrow> int \<Rightarrow> alert list \<Rightarrow> alert list \<times> alert_match list
     \<Rightarrow> alert list \<times> alert_match list" where
  "check_loop fetch now [] st = st"
| "check_loop fetch now (a # rest) st =
     (let matches = snd st @ concat (map (check_subreddit fetch a) (alert_subreddits a))
      in check_loop fetch now rest (stamp_alert now a matches (fst st), matches))"

record check_result =
  checked :: nat
  matches :: "alert_match list"

definition checkAlerts ::
  "(string \<Rightarrow> fetch_result) \<Rightarrow> int \<Rightarrow> files \<Rightarrow> check_result \<times> files" where
  "checkAlerts fetch now fs =
     (let alerts = loadJSON (alerts_file fs) [];
          enabledAlerts = filter enabled alerts
      in if enabledAlerts = [] then (\<lparr> checked = 0, matches = [] \<rparr>, fs)
         else (let st = check_loop fetch now enabledAlerts (alerts, [])
               in (\<lparr> checked = length enabledAlerts, matches = snd st \<rparr>,
                   fs\<lparr> alerts_file := Some (fst st) \<rparr>)))"

section \<open>Notions used to state the properties\<close>

text \<open>
  \<open>match_at word t i\<close>: the entry starts at position \<open>i\<close> of the text and the position is
  a word boundary. \<open>no_inner_start word\<close>: no position inside the entry is one where the
  entry could start again at a word boundary, so that matches of the entry never overlap.
  \<open>occ\<close> counts the positions of \<open>match_at\<close> along the text, with the character before
  the text as a parameter.
\<close>

definition match_at :: "string \<Rightarrow> string \<Rightarrow> nat \<Rightarrow> bool" where
  "match_at word t i =
     (if startsWith (drop i t) word
      then wordBoundary (if i = 0 then None else Some (t ! (i - 1))) (Some (t ! i))
      else False)"

definition no_inner_start :: "string \<Rightarrow> bool" where
  "no_inner_start word =
     list_all (\<lambda>k. \<not> (word ! k = hd word \<and> isWordChar (word ! (k - 1)) \<noteq> isWordChar (word ! k)))
       [1..<length word]"

fun occ :: "string \<Rightarrow> char option \<Rightarrow> string \<Rightarrow> nat" where
  "occ word prev [] = 0"
| "occ word prev (c # cs) =
     (if startsWith (c # cs) word \<and> wordBoundary prev (Some c) then 1 else 0)
       + occ word (Some c) cs"

text \<open>
  The spec's reading of a hit, a whole-word match: the entry starts at a word boundary
  and ends at one.
\<close>

definition whole_word_at :: "string \<Rightarrow> string \<Rightarrow> nat \<Rightarrow> bool" where
  "whole_word_at word t i =
     (if match_at word t i
      then wordBoundary (Some (t ! (i + length word - 1)))
             (if i + length word < length t then Some (t ! (i + length word)) else None)
      else False)"

definition spec_whole_word_count :: "string \<Rightarrow> string \<Rightarrow> nat" where
  "spec_whole_word_count word t = length (filter (whole_word_at word t) [0..<length t])"

text \<open>
  The posts of a subreddit that the daily digest of scout.js keeps: those of a listing
  that could be fetched and extracted, created at or after the cutoff.
\<close>

definition in_window :: "(string \<Rightarrow> fetch_result) \<Rightarrow> int \<Rightarrow> string \<Rightarrow> post list" where
  "in_window fetch cutoff sub =
     (case fetch sub of
        Listing children \<Rightarrow>
          (case extractPosts children of Some posts \<Rightarrow> recentPosts cutoff posts | None \<Rightarrow> [])
      | _ \<Rightarrow> [])"

text \<open>A fetched post that an alert reports when the post is not in the seen set.\<close>

definition reportable :: "alert \<Rightarrow> child \<Rightarrow> bool" where
  "reportable a p = (matchedKeywords a (toLowerCase (child_text p)) \<noteq> [])"

section \<open>Sample data\<close>

definition saas_alert :: alert where
  "saas_alert =
     \<lparr> alert_id = ''a1'', alert_keywords = [''looking for'', ''need help''],
       alert_subreddits = [''SaaS''], alert_createdAt = 1, enabled = True,
       notifyVia = ''console'', lastChecked = None, matchCount = 0 \<rparr>"

definition crm_child :: child where
  "crm_child =
     \<lparr> kind = ''t3'', data_id = ''p1'', data_title = ''Looking for a CRM alternative'',
       data_selftext = None, data_score = 7, num_comments = 2, data_author = ''u1'',
       created_utc = 1000, permalink = ''/r/SaaS/p1'', link_flair_text = None \<rparr>"

definition saas_fetch :: "string \<Rightarrow> fetch_result" where
  "saas_fetch sub = (if sub = ''SaaS'' then Listing [crm_child] else NotOk)"

definition love_child :: child where
  "love_child =
     \<lparr> kind = ''t3'', data_id = ''p9'', data_title = ''Love it'', data_selftext = None,
       data_score = 3, num_comments = 0, data_author = ''u2'', created_utc = 1000,
       permalink = ''/r/SaaS/p9'', link_flair_text = None \<rparr>"

definition help_child :: child where
  "help_child =
     \<lparr> kind = ''t3'', data_id = ''p8'', data_title = ''Need help'', data_selftext = Some ''bad bug'',
       data_score = 5, num_comments = 1, data_author = ''u3'', created_utc = 1500,
       permalink = ''/r/SaaS/p8'', link_flair_text = None \<rparr>"

definition digest_fetch :: "string \<Rightarrow> fetch_result" where
  "digest_fetch sub = (if sub = ''SaaS'' then Listing [love_child, help_child] else NotOk)"

definition love_fetch :: "string \<Rightarrow> fetch_result" where
  "love_fetch sub = (if sub = ''SaaS'' then Listing [love_child] else NotOk)"

definition pricing_post :: post where
  "pricing_post =
     \<lparr> post_id = ''3'', title = ''Too expensive'', selftext = ''Need help'',
       score = 15, numComments = 8, author = ''u1'', createdUtc = 100,
       url = ''https://reddit.com/r/SaaS/3'', flair = None \<rparr>"

definition no_files :: files where
  "no_files = \<lparr> schedule_file = None, alerts_file = None, history_file = None \<rparr>"

definition one_post_files :: files where
  "one_post_files =
     \<lparr> schedule_file = Some [\<lparr> sp_id = ''p1'', sp_subreddit = ''SaaS'', sp_title = ''My Launch'',
            content = ''Check out my app'', scheduledTime = 5, sp_createdAt = 1, status = Pending,
            sp_flair = None, nsfw = False, spoiler = False, cancelledAt = None, postedAt = None,
            redditUrl = None \<rparr>],
       alerts_file = Some [saas_alert],
       history_file = None \<rparr>"


definition posted_post_files :: files where
  "posted_post_files =
     \<lparr> schedule_file = Some [\<lparr> sp_id = ''p1'', sp_subreddit = ''SaaS'', sp_title = ''My Launch'',
            content = ''Check out my app'', scheduledTime = 5, sp_createdAt = 1, status = Posted,
            sp_flair = None, nsfw = False, spoiler = False, cancelledAt = None, postedAt = Some 6,
            redditUrl = None \<rparr>],
       alerts_file = None,
       history_file = None \<rparr>"

section \<open>Properties of the sentiment scorers\<close>

lemma lexicon_hits_nonneg: "0 \<le> lexicon_hits lexicon t"
  unfolding lexicon_hits_def by (induction lexicon) auto

lemma flip_after_negation_sum:
  "fst (flip_after_negation w nxt pn) + snd (flip_after_negation w nxt pn) = fst pn + snd pn"
  by (simp add: flip_after_negation_def Let_def)

lemma negation_loop_sum:
  "fst (negation_loop ws pn) + snd (negation_loop ws pn) = fst pn + snd pn"
  by (induction ws pn rule: negation_loop.induct) (simp_all add: flip_after_negation_sum)

subsection \<open>Rounding to a double\<close>

lemma pow2_power_int: "pow2 e = power_int 2 e"
  by (simp add: pow2_def power_int_def inverse_eq_divide power_one_over)

lemma pow2_pos: "0 < pow2 e"
  by (simp add: pow2_def)

lemma pow2_add: "pow2 (a + b) = pow2 a * pow2 b"
  by (simp add: pow2_power_int power_int_add)

lemma pow2_nat: "pow2 (int n) = 2 ^ n"
  by (simp add: pow2_def)

lemma round_half_even_error: "\<bar>of_int (round_half_even m) - m\<bar> \<le> 1 / 2"
proof -
  have "of_int \<lfloor>m\<rfloor> \<le> m" "m < of_int \<lfloor>m\<rfloor> + 1" by linarith+
  then show ?thesis
    by (auto simp: round_half_even_def Let_def abs_le_iff)
qed

lemma bitlen_lower: "0 < a \<Longrightarrow> pow2 (bitlen a - 1) \<le> of_int a"
proof -
  assume a: "0 < a"
  then have "bitlen a = bitlen (a div 2) + 1" by (simp add: compute_bitlen)
  then have "0 < bitlen a" using bitlen_nonneg [of "a div 2"] by linarith
  then have p: "pow2 (bitlen a - 1) = 2 ^ nat (bitlen a - 1)" by (simp add: pow2_def)
  from bitlen_bounds [OF a] have "(2::int) ^ nat (bitlen a - 1) \<le> a" by simp
  then have "(of_int ((2::int) ^ nat (bitlen a - 1)) :: rat) \<le> of_int a"
    by (simp only: of_int_le_iff)
  then show ?thesis unfolding p by simp
qed

lemma bitlen_upper: "0 < a \<Longrightarrow> of_int a < pow2 (bitlen a)"
proof -
  assume a: "0 < a"
  have p: "pow2 (bitlen a) = 2 ^ nat (bitlen a)" by (simp add: pow2_def bitlen_nonneg)
  from bitlen_bounds [OF a] have "a < (2::int) ^ nat (bitlen a)" by simp
  then have "(of_int a :: rat) < of_int ((2::int) ^ nat (bitlen a))"
    by (simp only: of_int_less_iff)
  then show ?thesis unfolding p by simp
qed

lemma binade_bounds:
  assumes "0 < x"
  shows "pow2 (binade x) \<le> x" "x < pow2 (binade x + 1)"
proof -
  obtain a b where q: "quotient_of x = (a, b)" by (cases "quotient_of x")
  then have b: "0 < b" by (rule quotient_of_denom_pos)
  have x: "x = of_int a / of_int b" using q by (rule quotient_of_div)
  have a: "0 < a" using assms b unfolding x by (simp add: zero_less_divide_iff)
  define k where "k = bitlen a - bitlen b"
  have bq: "(0::rat) < of_int b" using b by simp
  have lo: "pow2 (k - 1) \<le> x"
  proof -
    have "pow2 (k - 1) * pow2 (bitlen b) = pow2 (bitlen a - 1)"
      unfolding pow2_add [symmetric] k_def by simp
    then have "pow2 (k - 1) * pow2 (bitlen b) \<le> of_int a"
      using bitlen_lower [OF a] by simp
    moreover have "pow2 (k - 1) * of_int b \<le> pow2 (k - 1) * pow2 (bitlen b)"
      using bitlen_upper [OF b] pow2_pos [of "k - 1"] by simp
    ultimately have "pow2 (k - 1) * of_int b \<le> of_int a" by linarith
    then show ?thesis unfolding x using bq by (simp add: pos_le_divide_eq)
  qed
  have hi: "x < pow2 (k + 1)"
  proof -
    have "pow2 (k + 1) * pow2 (bitlen b - 1) = pow2 (bitlen a)"
      unfolding pow2_add [symmetric] k_def by simp
    then have "of_int a < pow2 (k + 1) * pow2 (bitlen b - 1)"
      using bitlen_upper [OF a] by simp
    moreover have "pow2 (k + 1) * pow2 (bitlen b - 1) \<le> pow2 (k + 1) * of_int b"
      using bitlen_lower [OF b] pow2_pos [of "k + 1"] by simp
    ultimately have "of_int a < pow2 (k + 1) * of_int b" by linarith
    then show ?thesis unfolding x using bq by (simp add: pos_divide_less_eq)
  qed
  have bin: "binade x = (if pow2 k \<le> x then k else k - 1)"
    by (simp add: binade_def q k_def Let_def)
  show "pow2 (binade x) \<le> x" using lo by (simp add: bin)
  show "x < pow2 (binade x + 1)" using hi by (simp add: bin)
qed

lemma fl_zero: "fl 0 = 0"
  by (simp add: fl_def)

lemma fl_minus: "fl (- x) = - fl x"
  by (simp add: fl_def Let_def sgn_minus)

lemma fl_error: "\<bar>fl x - x\<bar> \<le> \<bar>x\<bar> / 2 ^ 53"
proof (cases "x = 0")
  case True
  then show ?thesis by (simp add: fl_def)
next
  case False
  define e where "e = binade \<bar>x\<bar>"
  define m where "m = \<bar>x\<bar> * pow2 (52 - e)"
  define q where "q = round_half_even m"
  have ax: "0 < \<bar>x\<bar>" using False by simp
  have f: "fl x = sgn x * of_int q * pow2 (e - 52)"
    using False by (simp add: fl_def Let_def e_def m_def q_def)
  have "pow2 (52 - e) * pow2 (e - 52) = 1"
    unfolding pow2_add [symmetric] by (simp add: pow2_def)
  then have "m * pow2 (e - 52) = \<bar>x\<bar>" by (simp add: m_def)
  then have "x = sgn x * m * pow2 (e - 52)"
    by (simp add: mult.assoc sgn_mult_abs)
  then have "fl x - x = sgn x * (of_int q - m) * pow2 (e - 52)"
    unfolding f by (simp add: algebra_simps)
  then have "\<bar>fl x - x\<bar> = \<bar>of_int q - m\<bar> * pow2 (e - 52)"
    using False pow2_pos [of "e - 52"] by (simp add: abs_mult abs_sgn_eq)
  also have "\<dots> \<le> 1 / 2 * pow2 (e - 52)"
    using round_half_even_error [of m] pow2_pos [of "e - 52"]
    unfolding q_def by (simp only: mult_right_mono less_imp_le)
  also have "\<dots> = pow2 e / 2 ^ 53"
  proof -
    have "pow2 (e - 52) * pow2 52 = pow2 e" unfolding pow2_add [symmetric] by simp
    moreover have "pow2 52 = 2 ^ 52" using pow2_nat [of 52] by simp
    ultimately show ?thesis by simp
  qed
  also have "\<dots> \<le> \<bar>x\<bar> / 2 ^ 53"
    using binade_bounds(1) [OF ax] unfolding e_def by (simp add: divide_right_mono)
  finally show ?thesis .
qed

lemma fl_lower: "0 \<le> a \<Longrightarrow> a \<le> x \<Longrightarrow> a * (1 - 1 / 2 ^ 53) \<le> fl x"
proof -
  assume a: "0 \<le> a" "a \<le> x"
  then have "\<bar>x\<bar> = x" by simp
  with fl_error [of x] have "\<bar>fl x - x\<bar> \<le> x / 2 ^ 53" by simp
  then have "x - x / 2 ^ 53 \<le> fl x" by linarith
  moreover have "a * (1 - 1 / 2 ^ 53) \<le> x * (1 - 1 / 2 ^ 53)"
    using a by (intro mult_right_mono) simp_all
  ultimately show ?thesis by (simp add: algebra_simps)
qed

lemma fl_upper: "0 \<le> x \<Longrightarrow> x \<le> b \<Longrightarrow> fl x \<le> b * (1 + 1 / 2 ^ 53)"
proof -
  assume a: "0 \<le> x" "x \<le> b"
  then have "\<bar>x\<bar> = x" by simp
  with fl_error [of x] have "\<bar>fl x - x\<bar> \<le> x / 2 ^ 53" by simp
  then have "fl x \<le> x + x / 2 ^ 53" by linarith
  moreover have "x * (1 + 1 / 2 ^ 53) \<le> b * (1 + 1 / 2 ^ 53)"
    using a by (intro mult_right_mono) simp_all
  ultimately show ?thesis by (simp add: algebra_simps)
qed

lemma fl_nonneg: "0 \<le> x \<Longrightarrow> 0 \<le> fl x"
  using fl_lower [of 0 x] by simp

lemma fl_nonpos: "x \<le> 0 \<Longrightarrow> fl x \<le> 0"
  using fl_nonneg [of "- x"] by (simp add: fl_minus)

lemma fl_fifth: "fl (1 / 5) = 3602879701896397 / 18014398509481984"
  by code_simp

lemma fl_hundredths_ge: "fl (of_int k / 100) \<ge> 2 / 10 \<longleftrightarrow> 20 \<le> k"
proof -
  consider "21 \<le> k" | "k = 20" | "k \<le> 0" | "0 < k" "k \<le> 19" by linarith
  then show ?thesis
  proof cases
    case 1
    then have "(21::rat) \<le> of_int k" by linarith
    then have "(21 / 100 :: rat) \<le> of_int k / 100" by simp
    from fl_lower [OF _ this] show ?thesis using 1 by simp
  next
    case 2
    then show ?thesis by (simp add: fl_fifth)
  next
    case 3
    then have "(of_int k / 100 :: rat) \<le> 0" by simp
    from fl_nonpos [OF this] show ?thesis using 3 by simp
  next
    case 4
    then have "(0::rat) \<le> of_int k / 100" by simp
    moreover from 4 have "(of_int k :: rat) \<le> 19" by linarith
    then have "(of_int k / 100 :: rat) \<le> 19 / 100" by simp
    ultimately have "fl (of_int k / 100) \<le> 19 / 100 * (1 + 1 / 2 ^ 53)" by (rule fl_upper)
    then show ?thesis using 4 by simp
  qed
qed

lemma fl_hundredths_le: "fl (of_int k / 100) \<le> - (2 / 10) \<longleftrightarrow> k \<le> - 20"
proof -
  have "fl (of_int k / 100) = - fl (of_int (- k) / 100)"
    using fl_minus [of "of_int (- k) / 100"] by simp
  then have "fl (of_int k / 100) \<le> - (2 / 10) \<longleftrightarrow> fl (of_int (- k) / 100) \<ge> 2 / 10"
    by linarith
  then show ?thesis unfolding fl_hundredths_ge by linarith
qed

lemma scaled_lower:
  assumes "0 \<le> a" "a \<le> x"
  shows "a * (1 - 1 / 2 ^ 53) * 100 * (1 - 1 / 2 ^ 53) \<le> fl (fl x * 100)"
proof -
  from fl_lower [OF assms] have "a * (1 - 1 / 2 ^ 53) * 100 \<le> fl x * 100" by simp
  moreover have "0 \<le> a * (1 - 1 / 2 ^ 53) * 100" using assms(1) by simp
  ultimately show ?thesis by (rule fl_lower [rotated])
qed

lemma scaled_upper:
  assumes "0 \<le> x" "x \<le> b"
  shows "fl (fl x * 100) \<le> b * (1 + 1 / 2 ^ 53) * 100 * (1 + 1 / 2 ^ 53)"
proof -
  have "0 \<le> fl x * 100" using fl_nonneg [OF assms(1)] by simp
  moreover from fl_upper [OF assms] have "fl x * 100 \<le> b * (1 + 1 / 2 ^ 53) * 100" by simp
  ultimately show ?thesis by (rule fl_upper)
qed

lemma scaled_minus: "fl (fl (- x) * 100) = - fl (fl x * 100)"
  by (simp add: fl_minus)

lemma scaled_nonpos: "x \<le> 0 \<Longrightarrow> fl (fl x * 100) \<le> 0"
  by (simp add: fl_nonpos mult_le_0_iff)

subsection \<open>The label and the rounded compound\<close>

text \<open>
  Between the hit counts and the rounded compound: with fewer than 82 hits in all, a ratio
  of \<open>0.195\<close> or more is itself at least \<open>0.2\<close>, since the difference and the sum of the
  two counts have the same parity; so a ratio below \<open>0.2\<close> is below \<open>0.195\<close> by
  \<open>1/16200\<close> at least, which is far more than the rounding of the doubles can bridge.
\<close>

lemma small_total_pos:
  fixes p n :: int
  assumes "0 < p + n" "p + n < 82" "of_int (p - n) / of_int (p + n) \<ge> (39 / 200 :: rat)"
  shows "of_int (p - n) / of_int (p + n) \<ge> (2 / 10 :: rat)"
proof -
  have t: "(0::rat) < of_int (p + n)" using assms(1) by simp
  from assms(3) t have "(39 / 200) * (of_int (p + n) :: rat) \<le> of_int (p - n)"
    by (simp only: pos_le_divide_eq)
  then have "(39::rat) * of_int (p + n) \<le> 200 * of_int (p - n)"
    by (simp add: field_simps)
  then have "(of_int (39 * (p + n)) :: rat) \<le> of_int (200 * (p - n))" by simp
  then have a: "39 * (p + n) \<le> 200 * (p - n)" by (simp only: of_int_le_iff)
  have "p + n \<le> 5 * (p - n)"
  proof (rule ccontr)
    assume "\<not> p + n \<le> 5 * (p - n)"
    then have "4 * p < 6 * n" by (simp add: algebra_simps)
    then have "2 * p < 3 * n" by linarith
    then have b: "2 * p + 1 \<le> 3 * n" by linarith
    from a have a': "239 * n \<le> 161 * p" by (simp add: algebra_simps)
    from a' b have "161 \<le> 5 * n" by linarith
    then have n: "33 \<le> n" by linarith
    from a' n have "49 \<le> p" by linarith
    with n assms(2) show False by linarith
  qed
  then have "(of_int (p + n) :: rat) \<le> of_int (5 * (p - n))" by (simp only: of_int_le_iff)
  then have "2 / 10 * (of_int (p + n) :: rat) \<le> of_int (p - n)" by (simp add: field_simps)
  then show ?thesis using t by (simp only: pos_le_divide_eq)
qed

lemma round2_ge_iff: "round2 c \<ge> 2 / 10 \<longleftrightarrow> 39 / 2 \<le> fl (fl c * 100)"
proof -
  have "round2 c \<ge> 2 / 10 \<longleftrightarrow> (20::int) \<le> \<lfloor>fl (fl c * 100) + 1 / 2\<rfloor>"
    unfolding round2_def by (rule fl_hundredths_ge)
  also have "\<dots> \<longleftrightarrow> of_int 20 \<le> fl (fl c * 100) + 1 / 2"
    by (rule le_floor_iff)
  also have "\<dots> \<longleftrightarrow> 39 / 2 \<le> fl (fl c * 100)"
    by simp linarith
  finally show ?thesis .
qed

lemma round2_le_iff: "round2 c \<le> - (2 / 10) \<longleftrightarrow> fl (fl c * 100) < - (39 / 2)"
proof -
  have "round2 c \<le> - (2 / 10) \<longleftrightarrow> \<lfloor>fl (fl c * 100) + 1 / 2\<rfloor> \<le> (- 20::int)"
    unfolding round2_def by (rule fl_hundredths_le)
  also have "\<dots> \<longleftrightarrow> fl (fl c * 100) + 1 / 2 < of_int (- 20) + 1"
    by (rule floor_le_iff)
  also have "\<dots> \<longleftrightarrow> fl (fl c * 100) < - (39 / 2)"
    by simp linarith
  finally show ?thesis .
qed

lemma scaled_gt_fifth: "2 / 10 \<le> c \<Longrightarrow> 39 / 2 < fl (fl c * 100)"
  using scaled_lower [of "2 / 10" c] by simp

lemma scaled_ge_fifth: "2 / 10 \<le> c \<Longrightarrow> 39 / 2 \<le> fl (fl c * 100)"
  using scaled_gt_fifth [of c] by simp

lemma scaled_below:
  assumes "c \<le> 3158 / 16200"
  shows "fl (fl c * 100) < 39 / 2"
proof (cases "0 \<le> c")
  case True
  from scaled_upper [OF True assms] show ?thesis by simp
next
  case False
  then have "fl (fl c * 100) \<le> 0" by (simp add: scaled_nonpos)
  then show ?thesis by simp
qed

lemma round2_zero: "round2 0 = 0"
proof -
  have "\<lfloor>1 / 2 :: rat\<rfloor> = 0" by (rule floor_unique) simp_all
  then show ?thesis by (simp add: round2_def fl_zero)
qed

lemma round2_error: "\<bar>round2 c - c\<bar> \<le> 1 / 200 + (\<bar>c\<bar> + 1) / 2 ^ 51"
proof -
  define a where "a = fl c"
  define y where "y = fl (a * 100)"
  define k where "k = \<lfloor>y + 1 / 2\<rfloor>"
  define w :: rat where "w = of_int k / 100"
  define C where "C = \<bar>c\<bar>"
  define A where "A = \<bar>a\<bar>"
  define W where "W = \<bar>w\<bar>"
  define e1 where "e1 = \<bar>a - c\<bar>"
  define e2 where "e2 = \<bar>y / 100 - a\<bar>"
  define e3 where "e3 = \<bar>w - y / 100\<bar>"
  define e4 where "e4 = \<bar>fl w - w\<bar>"
  have r: "round2 c = fl w" by (simp add: round2_def a_def y_def k_def w_def)
  have f1: "e1 \<le> C / 2 ^ 53" unfolding e1_def C_def a_def by (rule fl_error)
  have "\<bar>y - a * 100\<bar> \<le> \<bar>a * 100\<bar> / 2 ^ 53" unfolding y_def by (rule fl_error)
  then have "\<bar>y - a * 100\<bar> / 100 \<le> \<bar>a\<bar> / 2 ^ 53" by (simp add: abs_mult)
  moreover have "\<bar>y - a * 100\<bar> / 100 = \<bar>(y - a * 100) / 100\<bar>" by simp
  moreover have "(y - a * 100) / 100 = y / 100 - a" by (simp add: field_simps)
  ultimately have f2: "e2 \<le> A / 2 ^ 53" unfolding e2_def A_def by simp
  have "of_int k \<le> y + 1 / 2" "y + 1 / 2 < of_int k + 1" unfolding k_def by linarith+
  then have "\<bar>of_int k - y\<bar> \<le> 1 / 2" by linarith
  then have "\<bar>of_int k - y\<bar> / 100 \<le> 1 / 200" by simp
  moreover have "\<bar>of_int k - y\<bar> / 100 = \<bar>(of_int k - y) / 100\<bar>" by simp
  moreover have "(of_int k - y) / 100 = w - y / 100" by (simp add: w_def field_simps)
  ultimately have f3: "e3 \<le> 1 / 200" unfolding e3_def by simp
  have f4: "e4 \<le> W / 2 ^ 53" unfolding e4_def W_def by (rule fl_error)
  have t1: "A \<le> e1 + C" unfolding A_def e1_def C_def by linarith
  have t2: "W \<le> e3 + e2 + A" unfolding W_def e3_def e2_def A_def by linarith
  define E where "E = \<bar>fl w - c\<bar>"
  have t3: "E \<le> e4 + e3 + e2 + e1" unfolding E_def e4_def e3_def e2_def e1_def by linarith
  have c0: "0 \<le> C" unfolding C_def by simp
  have g1: "A \<le> C + C / 2 ^ 53" using t1 f1 by linarith
  have g2: "e2 \<le> C / 2 ^ 53 + C / 2 ^ 106"
  proof -
    have "A / 2 ^ 53 \<le> (C + C / 2 ^ 53) / 2 ^ 53" using g1 by (simp add: divide_right_mono)
    then show ?thesis using f2 by (simp add: add_divide_distrib)
  qed
  have g3: "W \<le> 1 / 200 + 3 / 2 * C" using t2 f3 g2 g1 c0 by simp
  have g4: "e4 \<le> 1 / 200 / 2 ^ 53 + 3 / 2 * C / 2 ^ 53"
  proof -
    have "W / 2 ^ 53 \<le> (1 / 200 + 3 / 2 * C) / 2 ^ 53" using g3 by (simp add: divide_right_mono)
    then show ?thesis using f4 by (simp add: add_divide_distrib)
  qed
  have "E \<le> 1 / 200 + (C + 1) / 2 ^ 51"
    using t3 g4 f3 g2 f1 c0 by (simp add: add_divide_distrib)
  then show ?thesis unfolding r C_def E_def .
qed

lemma small_total_gap:
  fixes p n :: int
  assumes "0 < p + n" "p + n < 82" "of_int (p - n) / of_int (p + n) < (2 / 10 :: rat)"
  shows "of_int (p - n) / of_int (p + n) \<le> (3158 / 16200 :: rat)"
proof -
  have t: "(0::rat) < of_int (p + n)" using assms(1) by simp
  have "\<not> of_int (p - n) / of_int (p + n) \<ge> (39 / 200 :: rat)"
    using small_total_pos [OF assms(1,2)] assms(3) by linarith
  then have "of_int (p - n) / of_int (p + n) < (39 / 200 :: rat)" by simp
  then have "(of_int (p - n) :: rat) < 39 / 200 * of_int (p + n)"
    using t by (simp only: pos_divide_less_eq)
  then have "200 * of_int (p - n) < (39::rat) * of_int (p + n)"
    by (simp add: field_simps)
  then have "(of_int (200 * (p - n)) :: rat) < of_int (39 * (p + n))" by simp
  then have "200 * (p - n) < 39 * (p + n)" by (simp only: of_int_less_iff)
  then have "16200 * (p - n) \<le> 3158 * (p + n)" using assms(2) by (simp add: algebra_simps)
  then have "(of_int (16200 * (p - n)) :: rat) \<le> of_int (3158 * (p + n))"
    by (simp only: of_int_le_iff)
  then have "(of_int (p - n) :: rat) \<le> 3158 / 16200 * of_int (p + n)" by (simp add: field_simps)
  then show ?thesis using t by (simp only: pos_divide_le_eq)
qed

lemma label_round2_small:
  fixes p n :: int
  assumes "p + n < 82"
  shows "(label_of (raw_compound p n) = Positive \<longleftrightarrow> round2 (raw_compound p n) \<ge> 2 / 10)
       \<and> (label_of (raw_compound p n) = Negative \<longleftrightarrow> round2 (raw_compound p n) \<le> - (2 / 10))"
proof (cases "0 < p + n")
  case True
  define c :: rat where "c = of_int (p - n) / of_int (p + n)"
  have rc: "raw_compound p n = c" using True by (simp add: raw_compound_def c_def)
  have mc: "- c = of_int (n - p) / of_int (n + p)"
  proof -
    have "- c = (- of_int (p - n)) / of_int (p + n)" unfolding c_def by (rule minus_divide_left)
    also have "- (of_int (p - n) :: rat) = of_int (n - p)" by simp
    also have "p + n = n + p" by simp
    finally show ?thesis .
  qed
  have pos: "round2 c \<ge> 2 / 10 \<longleftrightarrow> c \<ge> 2 / 10"
  proof
    assume "2 / 10 \<le> c"
    then show "2 / 10 \<le> round2 c" unfolding round2_ge_iff by (rule scaled_ge_fifth)
  next
    assume r: "2 / 10 \<le> round2 c"
    show "2 / 10 \<le> c"
    proof (rule ccontr)
      assume "\<not> 2 / 10 \<le> c"
      then have "c < 2 / 10" by simp
      then have "c \<le> 3158 / 16200"
        unfolding c_def by (rule small_total_gap [OF True assms])
      then have "fl (fl c * 100) < 39 / 2" by (rule scaled_below)
      with r show False unfolding round2_ge_iff by simp
    qed
  qed
  have neg: "round2 c \<le> - (2 / 10) \<longleftrightarrow> c \<le> - (2 / 10)"
  proof
    assume "c \<le> - (2 / 10)"
    then have "2 / 10 \<le> - c" by simp
    then have "39 / 2 < fl (fl (- c) * 100)" by (rule scaled_gt_fifth)
    then show "round2 c \<le> - (2 / 10)" unfolding round2_le_iff scaled_minus by simp
  next
    assume r: "round2 c \<le> - (2 / 10)"
    show "c \<le> - (2 / 10)"
    proof (rule ccontr)
      assume "\<not> c \<le> - (2 / 10)"
      then have "- c < 2 / 10" by simp
      moreover have "0 < n + p" "n + p < 82" using True assms by simp_all
      ultimately have "- c \<le> 3158 / 16200"
        unfolding mc by (intro small_total_gap)
      then have "fl (fl (- c) * 100) < 39 / 2" by (rule scaled_below)
      with r show False unfolding round2_le_iff scaled_minus by simp
    qed
  qed
  have "(label_of c = Positive \<longleftrightarrow> c \<ge> 2 / 10) \<and> (label_of c = Negative \<longleftrightarrow> c \<le> - (2 / 10))"
    by (auto simp: label_of_def)
  then show ?thesis
    unfolding rc pos neg .
next
  case False
  then have "raw_compound p n = 0" by (simp add: raw_compound_def)
  then show ?thesis by (simp add: label_of_def round2_zero)
qed

text \<open>
  The code compares the double \<open>compound\<close> with the doubles \<open>0.2\<close> and \<open>-0.2\<close>. For a
  total up to \<open>2^50\<close> the answers are those of the exact quotient and the exact \<open>0.2\<close>.
\<close>

lemma double_comparison_ge:
  fixes d t :: int
  assumes "0 < t" "t \<le> 2 ^ 50"
  shows "fl (of_int d / of_int t) \<ge> fl (2 / 10) \<longleftrightarrow> (of_int d / of_int t :: rat) \<ge> 2 / 10"
proof -
  define c :: rat where "c = of_int d / of_int t"
  have t: "(0::rat) < of_int t" using assms(1) by simp
  have F: "fl (2 / 10) = 3602879701896397 / 18014398509481984" using fl_fifth by simp
  have up: "fl c \<ge> fl (2 / 10)" if "c \<ge> 2 / 10"
  proof (cases "c = 2 / 10")
    case True
    show ?thesis unfolding True by (rule order_refl)
  next
    case False
    with that have "2 / 10 < c" by simp
    then have "2 / 10 * (of_int t :: rat) < of_int d"
      unfolding c_def using t by (simp only: pos_less_divide_eq)
    then have "(of_int t :: rat) < of_int (5 * d)" by simp
    then have "t < 5 * d" by (simp only: of_int_less_iff)
    then have "(2 ^ 50 + 1) * t \<le> 5 * 2 ^ 50 * d" using assms(2) by simp
    then have "(of_int ((2 ^ 50 + 1) * t) :: rat) \<le> of_int (5 * 2 ^ 50 * d)"
      by (simp only: of_int_le_iff)
    then have "(2 ^ 50 + 1) / (5 * 2 ^ 50) * (of_int t :: rat) \<le> of_int d" by simp
    then have "(2 ^ 50 + 1) / (5 * 2 ^ 50) \<le> c"
      unfolding c_def using t by (simp only: pos_le_divide_eq)
    from fl_lower [OF _ this] show ?thesis unfolding F by simp
  qed
  have down: "fl c < fl (2 / 10)" if "c < 2 / 10"
  proof (cases "0 \<le> c")
    case False
    then have "fl c \<le> 0" by (simp add: fl_nonpos)
    then show ?thesis unfolding F by simp
  next
    case True
    from that have "(of_int d :: rat) < 2 / 10 * of_int t"
      unfolding c_def using t by (simp only: pos_divide_less_eq)
    then have "(of_int (5 * d) :: rat) < of_int t" by simp
    then have "5 * d < t" by (simp only: of_int_less_iff)
    then have "5 * 2 ^ 50 * d \<le> (2 ^ 50 - 1) * t" using assms(2) by simp
    then have "(of_int (5 * 2 ^ 50 * d) :: rat) \<le> of_int ((2 ^ 50 - 1) * t)"
      by (simp only: of_int_le_iff)
    then have "(of_int d :: rat) \<le> (2 ^ 50 - 1) / (5 * 2 ^ 50) * of_int t" by simp
    then have "c \<le> (2 ^ 50 - 1) / (5 * 2 ^ 50)"
      unfolding c_def using t by (simp only: pos_divide_le_eq)
    from fl_upper [OF True this] show ?thesis unfolding F by simp
  qed
  show ?thesis unfolding c_def [symmetric] using up down by (meson not_le)
qed

lemma double_comparison:
  fixes d t :: int
  assumes "0 < t" "t \<le> 2 ^ 50"
  shows "fl (of_int d / of_int t) \<ge> fl (2 / 10) \<longleftrightarrow> (of_int d / of_int t :: rat) \<ge> 2 / 10"
    and "fl (of_int d / of_int t) \<le> - fl (2 / 10) \<longleftrightarrow> (of_int d / of_int t :: rat) \<le> - (2 / 10)"
proof -
  show "fl (of_int d / of_int t) \<ge> fl (2 / 10) \<longleftrightarrow> (of_int d / of_int t :: rat) \<ge> 2 / 10"
    using assms by (rule double_comparison_ge)
  have "fl (of_int d / of_int t) = - fl (of_int (- d) / of_int t)"
    using fl_minus [of "of_int (- d) / of_int t"] by simp
  then have "fl (of_int d / of_int t) \<le> - fl (2 / 10)
      \<longleftrightarrow> fl (of_int (- d) / of_int t) \<ge> fl (2 / 10)" by linarith
  also have "\<dots> \<longleftrightarrow> (of_int (- d) / of_int t :: rat) \<ge> 2 / 10"
    using assms by (rule double_comparison_ge)
  also have "\<dots> \<longleftrightarrow> (of_int d / of_int t :: rat) \<le> - (2 / 10)"
  proof -
    have "of_int (- d) / of_int t = - (of_int d / of_int t :: rat)" by simp
    then show ?thesis by linarith
  qed
  finally show "fl (of_int d / of_int t) \<le> - fl (2 / 10) \<longleftrightarrow> (of_int d / of_int t :: rat) \<le> - (2 / 10)" .
qed

lemma substring_hits_bounds:
  "0 \<le> substring_hits lexicon t \<and> substring_hits lexicon t \<le> int (length lexicon)"
  by (simp add: substring_hits_def)

lemma analyzeSentiment_fields:
  "label (analyzeSentiment text)
     = label_of (raw_compound (positive (analyzeSentiment text)) (negative (analyzeSentiment text)))"
  "compound (analyzeSentiment text)
     = round2 (raw_compound (positive (analyzeSentiment text)) (negative (analyzeSentiment text)))"
  by (simp_all add: analyzeSentiment_def Let_def)

lemma analyzeSentiment_total_nonneg:
  "0 \<le> positive (analyzeSentiment text) + negative (analyzeSentiment text)"
  using lexicon_hits_nonneg [of POSITIVE_WORDS "toLowerCase text"]
        lexicon_hits_nonneg [of NEGATIVE_WORDS "toLowerCase text"]
  by (simp add: analyzeSentiment_def Let_def negation_loop_sum)

subsection \<open>The scorer on a text with 49 positive and 33 negative hits\<close>

lemma block_love:
  "\<forall>w\<in>set (POSITIVE_WORDS @ NEGATIVE_WORDS).
     match_count_from w 0 None (''love '' @ rest) = (if w = ''love'' then 1 else 0) + match_count_from w 0 (Some (CHR '' '')) rest
   \<and> match_count_from w 0 (Some (CHR '' '')) (''love '' @ rest) = (if w = ''love'' then 1 else 0) + match_count_from w 0 (Some (CHR '' '')) rest"
  by (simp add: POSITIVE_WORDS_def NEGATIVE_WORDS_def wordBoundary_def isWordChar_def)

lemma block_bad:
  "\<forall>w\<in>set (POSITIVE_WORDS @ NEGATIVE_WORDS).
     match_count_from w 0 None (''bad '' @ rest) = (if w = ''bad'' then 1 else 0) + match_count_from w 0 (Some (CHR '' '')) rest
   \<and> match_count_from w 0 (Some (CHR '' '')) (''bad '' @ rest) = (if w = ''bad'' then 1 else 0) + match_count_from w 0 (Some (CHR '' '')) rest"
  by (simp add: POSITIVE_WORDS_def NEGATIVE_WORDS_def wordBoundary_def isWordChar_def)

lemma blocks_love:
  assumes "w \<in> set (POSITIVE_WORDS @ NEGATIVE_WORDS)" "prev = None \<or> prev = Some (CHR '' '')"
  shows "match_count_from w 0 prev (concat (replicate k ''love '') @ rest)
         = (if w = ''love'' then k else 0)
           + match_count_from w 0 (if k = 0 then prev else Some (CHR '' '')) rest"
  using assms(2)
proof (induction k arbitrary: prev)
  case 0
  then show ?case by simp
next
  case (Suc k)
  have step: "match_count_from w 0 prev (''love '' @ concat (replicate k ''love '') @ rest)
      = (if w = ''love'' then 1 else 0)
        + match_count_from w 0 (Some (CHR '' '')) (concat (replicate k ''love '') @ rest)"
    using block_love [of "concat (replicate k ''love '') @ rest"] assms(1) Suc.prems by blast
  have "concat (replicate (Suc k) ''love '') @ rest
        = ''love '' @ concat (replicate k ''love '') @ rest" by simp
  then show ?case
    using step Suc.IH [of "Some (CHR '' '')"] by (simp del: append.simps)
qed

lemma blocks_bad:
  assumes "w \<in> set (POSITIVE_WORDS @ NEGATIVE_WORDS)" "prev = None \<or> prev = Some (CHR '' '')"
  shows "match_count_from w 0 prev (concat (replicate k ''bad '') @ rest)
         = (if w = ''bad'' then k else 0)
           + match_count_from w 0 (if k = 0 then prev else Some (CHR '' '')) rest"
  using assms(2)
proof (induction k arbitrary: prev)
  case 0
  then show ?case by simp
next
  case (Suc k)
  have step: "match_count_from w 0 prev (''bad '' @ concat (replicate k ''bad '') @ rest)
      = (if w = ''bad'' then 1 else 0)
        + match_count_from w 0 (Some (CHR '' '')) (concat (replicate k ''bad '') @ rest)"
    using block_bad [of "concat (replicate k ''bad '') @ rest"] assms(1) Suc.prems by blast
  have "concat (replicate (Suc k) ''bad '') @ rest
        = ''bad '' @ concat (replicate k ''bad '') @ rest" by simp
  then show ?case
    using step Suc.IH [of "Some (CHR '' '')"] by (simp del: append.simps)
qed

lemma boundary_text_matches:
  assumes "w \<in> set (POSITIVE_WORDS @ NEGATIVE_WORDS)"
  shows "match_count w boundary_text = (if w = ''love'' then 49 else 0) + (if w = ''bad'' then 33 else 0)"
  using blocks_love [OF assms, of None 49 "concat (replicate 33 ''bad '')"]
        blocks_bad [OF assms, of "Some (CHR '' '')" 33 "[]"]
  by (simp add: match_count_def boundary_text_def)

lemma boundary_text_hits:
  "lexicon_hits POSITIVE_WORDS boundary_text = 49"
  "lexicon_hits NEGATIVE_WORDS boundary_text = 33"
proof -
  have "map (\<lambda>w. int (match_count w boundary_text)) POSITIVE_WORDS
        = map (\<lambda>w. int ((if w = ''love'' then 49 else 0) + (if w = ''bad'' then 33 else 0))) POSITIVE_WORDS"
    by (rule map_cong [OF refl]) (simp add: boundary_text_matches)
  then show "lexicon_hits POSITIVE_WORDS boundary_text = 49"
    unfolding lexicon_hits_def by (simp add: POSITIVE_WORDS_def)
  have "map (\<lambda>w. int (match_count w boundary_text)) NEGATIVE_WORDS
        = map (\<lambda>w. int ((if w = ''love'' then 49 else 0) + (if w = ''bad'' then 33 else 0))) NEGATIVE_WORDS"
    by (rule map_cong [OF refl]) (simp add: boundary_text_matches)
  then show "lexicon_hits NEGATIVE_WORDS boundary_text = 33"
    unfolding lexicon_hits_def by (simp add: NEGATIVE_WORDS_def)
qed

lemma boundary_text_lower: "toLowerCase boundary_text = boundary_text"
proof -
  have "map toLowerChar ''love '' = ''love ''" "map toLowerChar ''bad '' = ''bad ''"
    by code_simp+
  then show ?thesis
    by (simp add: toLowerCase_def boundary_text_def map_concat)
qed

lemma boundary_text_negations:
  "negation_loop (split_ws boundary_text) (49, 33) = (49, 33)"
  unfolding boundary_text_def by code_simp

text \<open>The double \<open>0.2\<close> is \<open>3602879701896397 / 2^54\<close>.\<close>

lemma round2_boundary: "round2 (16 / 82) = 3602879701896397 / 18014398509481984"
  by code_simp

lemma analyzeSentiment_boundary_text:
  "analyzeSentiment boundary_text
     = \<lparr> label = Neutral, compound = 3602879701896397 / 18014398509481984,
         positive = 49, negative = 33 \<rparr>"
proof -
  have r: "raw_compound 49 33 = 16 / 82" by (simp add: raw_compound_def)
  have l: "label_of (16 / 82) = Neutral" by (simp add: label_of_def)
  have "analyzeSentiment boundary_text
        = \<lparr> label = label_of (raw_compound 49 33), compound = round2 (raw_compound 49 33),
            positive = 49, negative = 33 \<rparr>"
    by (simp add: analyzeSentiment_def Let_def boundary_text_lower boundary_text_hits
        boundary_text_negations)
  then show ?thesis by (simp only: r l round2_boundary)
qed

lemma analyzeSentiment_love:
  "analyzeSentiment ''love'' = \<lparr> label = Positive, compound = 1, positive = 1, negative = 0 \<rparr>"
  by code_simp

text \<open>The double \<open>0.33\<close> is \<open>5944751508129055 / 2^54\<close>.\<close>

lemma analyzeSentiment_thanks_bug:
  "analyzeSentiment ''thanks bug''
     = \<lparr> label = Positive, compound = 5944751508129055 / 18014398509481984,
         positive = 2, negative = 1 \<rparr>"
  by code_simp


subsection \<open>The scorer on a text with 63 positive and 17 negative hits\<close>

lemma rounding_text_matches:
  assumes "w \<in> set (POSITIVE_WORDS @ NEGATIVE_WORDS)"
  shows "match_count w rounding_text = (if w = ''love'' then 63 else 0) + (if w = ''bad'' then 17 else 0)"
  using blocks_love [OF assms, of None 63 "concat (replicate 17 ''bad '')"]
        blocks_bad [OF assms, of "Some (CHR '' '')" 17 "[]"]
  by (simp add: match_count_def rounding_text_def)

lemma rounding_text_hits:
  "lexicon_hits POSITIVE_WORDS rounding_text = 63"
  "lexicon_hits NEGATIVE_WORDS rounding_text = 17"
proof -
  have "map (\<lambda>w. int (match_count w rounding_text)) POSITIVE_WORDS
        = map (\<lambda>w. int ((if w = ''love'' then 63 else 0) + (if w = ''bad'' then 17 else 0))) POSITIVE_WORDS"
    by (rule map_cong [OF refl]) (simp add: rounding_text_matches)
  then show "lexicon_hits POSITIVE_WORDS rounding_text = 63"
    unfolding lexicon_hits_def by (simp add: POSITIVE_WORDS_def)
  have "map (\<lambda>w. int (match_count w rounding_text)) NEGATIVE_WORDS
        = map (\<lambda>w. int ((if w = ''love'' then 63 else 0) + (if w = ''bad'' then 17 else 0))) NEGATIVE_WORDS"
    by (rule map_cong [OF refl]) (simp add: rounding_text_matches)
  then show "lexicon_hits NEGATIVE_WORDS rounding_text = 17"
    unfolding lexicon_hits_def by (simp add: NEGATIVE_WORDS_def)
qed

lemma rounding_text_lower: "toLowerCase rounding_text = rounding_text"
proof -
  have "map toLowerChar ''love '' = ''love ''" "map toLowerChar ''bad '' = ''bad ''"
    by code_simp+
  then show ?thesis
    by (simp add: toLowerCase_def rounding_text_def map_concat)
qed

lemma rounding_text_negations:
  "negation_loop (split_ws rounding_text) (63, 17) = (63, 17)"
  unfolding rounding_text_def by code_simp

text \<open>
  The doubles \<open>0.57\<close> and \<open>0.28\<close> are \<open>5134103575202365 / 2^53\<close> and
  \<open>1261007895663739 / 2^52\<close>. The ratio \<open>46 / 80\<close> is \<open>0.575\<close>: the product of its
  double with 100 is the double just below \<open>57.5\<close>, which \<open>Math.round\<close> takes to 57. The
  ratio \<open>-22 / 80\<close> is \<open>-0.275\<close>: the product is the double just below \<open>-27.5\<close>, which
  \<open>Math.round\<close> takes to \<open>-28\<close>.
\<close>

lemma round2_samples:
  "round2 (46 / 80) = 5134103575202365 / 9007199254740992"
  "round2 (- 22 / 80) = - (1261007895663739 / 4503599627370496)"
  "fl (57 / 100) = 5134103575202365 / 9007199254740992"
  "fl (28 / 100) = 1261007895663739 / 4503599627370496"
  by code_simp+

lemma analyzeSentiment_rounding_text:
  "analyzeSentiment rounding_text
     = \<lparr> label = Positive, compound = 5134103575202365 / 9007199254740992,
         positive = 63, negative = 17 \<rparr>"
proof -
  have r: "raw_compound 63 17 = 46 / 80" by (simp add: raw_compound_def)
  have l: "label_of (46 / 80) = Positive" by (simp add: label_of_def)
  have "analyzeSentiment rounding_text
        = \<lparr> label = label_of (raw_compound 63 17), compound = round2 (raw_compound 63 17),
            positive = 63, negative = 17 \<rparr>"
    by (simp add: analyzeSentiment_def Let_def rounding_text_lower rounding_text_hits
        rounding_text_negations)
  then show ?thesis by (simp only: r l round2_samples)
qed


text \<open>
  Claim C4, as the code has it. The label of scout.js's scorer is decided by the ratio of
  the returned hit counts before rounding: positive iff the ratio is at least \<open>0.2\<close>,
  negative iff it is at most \<open>-0.2\<close>, neutral strictly in between. The returned compound
  is that ratio rounded to two decimals; it decides the label whenever fewer than 82 hits
  were counted in all. The scorer of notify.js counts at most 50 hits, so there the label
  is positive iff the returned compound is at least \<open>0.2\<close> and negative iff it is at most
  \<open>-0.2\<close>, the boundary values included.
\<close>

theorem C4_label_from_ratio:
  "(let s = analyzeSentiment text; r = raw_compound (positive s) (negative s)
    in (label s = Positive \<longleftrightarrow> r \<ge> 2 / 10)
     \<and> (label s = Negative \<longleftrightarrow> r \<le> - (2 / 10))
     \<and> (label s = Neutral \<longleftrightarrow> - (2 / 10) < r \<and> r < 2 / 10)
     \<and> (positive s + negative s < 82 \<longrightarrow>
          (label s = Positive \<longleftrightarrow> compound s \<ge> 2 / 10)
        \<and> (label s = Negative \<longleftrightarrow> compound s \<le> - (2 / 10))))
   \<and> (let s = notify_analyzeSentiment text
      in (n_label s = Positive \<longleftrightarrow> n_compound s \<ge> 2 / 10)
       \<and> (n_label s = Negative \<longleftrightarrow> n_compound s \<le> - (2 / 10)))"
proof -
  let ?s = "analyzeSentiment text"
  let ?r = "raw_compound (positive ?s) (negative ?s)"
  have l: "label ?s = label_of ?r" by (rule analyzeSentiment_fields)
  have a: "(label ?s = Positive \<longleftrightarrow> ?r \<ge> 2 / 10)
         \<and> (label ?s = Negative \<longleftrightarrow> ?r \<le> - (2 / 10))
         \<and> (label ?s = Neutral \<longleftrightarrow> - (2 / 10) < ?r \<and> ?r < 2 / 10)"
    unfolding l by (auto simp: label_of_def)
  have b: "positive ?s + negative ?s < 82 \<longrightarrow>
          (label ?s = Positive \<longleftrightarrow> compound ?s \<ge> 2 / 10)
        \<and> (label ?s = Negative \<longleftrightarrow> compound ?s \<le> - (2 / 10))"
    using label_round2_small [of "positive ?s" "negative ?s"]
    by (simp add: analyzeSentiment_fields [symmetric])
  let ?p = "substring_hits POSITIVE_WORDS (toLowerCase text)"
  let ?n = "substring_hits NEGATIVE_WORDS (toLowerCase text)"
  have "?p \<le> 24" "?n \<le> 26"
    using substring_hits_bounds [of POSITIVE_WORDS "toLowerCase text"]
          substring_hits_bounds [of NEGATIVE_WORDS "toLowerCase text"]
    by (simp_all add: POSITIVE_WORDS_def NEGATIVE_WORDS_def)
  then have "?p + ?n < 82" by linarith
  from label_round2_small [OF this]
  have c: "(n_label (notify_analyzeSentiment text) = Positive
              \<longleftrightarrow> n_compound (notify_analyzeSentiment text) \<ge> 2 / 10)
         \<and> (n_label (notify_analyzeSentiment text) = Negative
              \<longleftrightarrow> n_compound (notify_analyzeSentiment text) \<le> - (2 / 10))"
    by (simp add: notify_analyzeSentiment_def Let_def)
  show ?thesis using a b c by (simp add: Let_def)
qed

theorem C4_label_from_ratio_witness:
  "positive (analyzeSentiment ''love'') + negative (analyzeSentiment ''love'') < 82
   \<and> compound (analyzeSentiment ''love'') \<ge> 2 / 10
   \<and> label (analyzeSentiment ''love'') = Positive"
  using C4_label_from_ratio [of "''love''"]
  by (simp add: Let_def analyzeSentiment_love)


text \<open>
  Claim C4 as stated fails for scout.js: on 49 times \<open>love\<close> and 33 times \<open>bad\<close> the
  ratio is \<open>16/82\<close>, below \<open>0.2\<close>, so the label is neutral, while the returned compound is
  the rounded value \<open>0.2\<close>.
\<close>

theorem C4_counterexample:
  "compound (analyzeSentiment (concat (replicate 49 ''love '') @ concat (replicate 33 ''bad ''))) \<ge> 2 / 10
   \<and> label (analyzeSentiment (concat (replicate 49 ''love '') @ concat (replicate 33 ''bad ''))) \<noteq> Positive"
  using analyzeSentiment_boundary_text by (simp add: boundary_text_def)


text \<open>
  Claim C5, as the code has it. The returned compound is \<open>Math.round(c * 100) / 100\<close>,
  computed on doubles, for the ratio \<open>c = (positive - negative) / (positive + negative)\<close>
  of the returned hit counts when the sum is not zero, and \<open>0\<close> otherwise; it is within
  \<open>0.005 + (|c| + 1) / 2^51\<close> of the ratio. The empty text yields the neutral label,
  compound \<open>0\<close> and no hits. On 63 times \<open>love\<close> and 17 times \<open>bad\<close> the ratio is
  \<open>0.575\<close> and the returned compound is the double \<open>0.57\<close>.
\<close>

theorem C5_compound_is_rounded_ratio:
  "(let s = analyzeSentiment text; p = positive s; n = negative s;
        r = (if p + n \<noteq> 0 then of_int (p - n) / of_int (p + n) else 0)
    in compound s = (if p + n \<noteq> 0 then round2 (of_int (p - n) / of_int (p + n)) else 0)
     \<and> \<bar>compound s - r\<bar> \<le> 1 / 200 + (\<bar>r\<bar> + 1) / 2 ^ 51)
   \<and> analyzeSentiment [] = \<lparr> label = Neutral, compound = 0, positive = 0, negative = 0 \<rparr>
   \<and> analyzeSentiment (concat (replicate 63 ''love '') @ concat (replicate 17 ''bad ''))
       = \<lparr> label = Positive, compound = 5134103575202365 / 9007199254740992,
           positive = 63, negative = 17 \<rparr>"
proof -
  let ?s = "analyzeSentiment text"
  let ?r = "if positive ?s + negative ?s \<noteq> 0
            then of_int (positive ?s - negative ?s) / of_int (positive ?s + negative ?s) else (0::rat)"
  have "0 \<le> positive ?s + negative ?s" by (rule analyzeSentiment_total_nonneg)
  then have r: "raw_compound (positive ?s) (negative ?s) = ?r"
    by (simp add: raw_compound_def)
  have "compound ?s = round2 (raw_compound (positive ?s) (negative ?s))"
    by (rule analyzeSentiment_fields)
  then have c: "compound ?s = round2 ?r" unfolding r .
  have a: "compound ?s = (if positive ?s + negative ?s \<noteq> 0
      then round2 (of_int (positive ?s - negative ?s) / of_int (positive ?s + negative ?s)) else 0)"
    unfolding c by (simp add: round2_zero)
  have b: "\<bar>compound ?s - ?r\<bar> \<le> 1 / 200 + (\<bar>?r\<bar> + 1) / 2 ^ 51"
    unfolding c by (rule round2_error)
  have e: "analyzeSentiment [] = \<lparr> label = Neutral, compound = 0, positive = 0, negative = 0 \<rparr>"
    by code_simp
  show ?thesis
    using a b e analyzeSentiment_rounding_text
    unfolding Let_def rounding_text_def by blast
qed


text \<open>
  Claim C5 as stated fails: on \<open>thanks bug\<close> the counts are 2 and 1, and the returned
  compound is the double \<open>0.33\<close>, not \<open>1/3\<close>.
\<close>

theorem C5_counterexample:
  "positive (analyzeSentiment ''thanks bug'') + negative (analyzeSentiment ''thanks bug'') \<noteq> 0
   \<and> compound (analyzeSentiment ''thanks bug'')
       \<noteq> of_int (positive (analyzeSentiment ''thanks bug'') - negative (analyzeSentiment ''thanks bug''))
         / of_int (positive (analyzeSentiment ''thanks bug'') + negative (analyzeSentiment ''thanks bug''))"
  by (simp add: analyzeSentiment_thanks_bug)


text \<open>
  Claim C7 fails on the code: after the negation word \<open>no\<close>, the piece \<open>glove\<close> contains
  the positive entry \<open>love\<close>, which matched at no word boundary, so the positive count
  drops from 0 to \<open>-1\<close>; with the one hit of \<open>bug\<close> the compound is \<open>-3\<close>.
\<close>

theorem C7_negation_breaks_bounds:
  "analyzeSentiment ''no glove bug'' = \<lparr> label = Negative, compound = - 3, positive = - 1, negative = 2 \<rparr>"
  by code_simp


section \<open>Properties of the lexicon matching\<close>

lemma startsWith_iff: "startsWith t s \<longleftrightarrow> (\<exists>v. t = s @ v)"
  by (induction t s rule: startsWith.induct) auto

lemma includes_str_iff: "includes_str t s \<longleftrightarrow> (\<exists>u v. t = u @ s @ v)"
proof (induction t)
  case Nil
  then show ?case by simp
next
  case (Cons c cs)
  have "(\<exists>u v. c # cs = u @ s @ v) \<longleftrightarrow> (\<exists>v. c # cs = s @ v) \<or> (\<exists>u v. cs = u @ s @ v)"
  proof
    assume "\<exists>u v. c # cs = u @ s @ v"
    then obtain u v where uv: "c # cs = u @ s @ v" by blast
    show "(\<exists>v. c # cs = s @ v) \<or> (\<exists>u v. cs = u @ s @ v)"
    proof (cases u)
      case Nil
      with uv show ?thesis by auto
    next
      case (Cons a u')
      with uv have "cs = u' @ s @ v" by simp
      then show ?thesis by blast
    qed
  next
    assume "(\<exists>v. c # cs = s @ v) \<or> (\<exists>u v. cs = u @ s @ v)"
    then show "\<exists>u v. c # cs = u @ s @ v"
    proof
      assume "\<exists>v. c # cs = s @ v"
      then obtain v where "c # cs = [] @ s @ v" by auto
      then show ?thesis by blast
    next
      assume "\<exists>u v. cs = u @ s @ v"
      then obtain u v where "c # cs = (c # u) @ s @ v" by auto
      then show ?thesis by blast
    qed
  qed
  with Cons.IH show ?case by (simp add: startsWith_iff)
qed

lemma occ_positions:
  "occ word prev t
   = length (filter (\<lambda>i. startsWith (drop i t) word
                        \<and> wordBoundary (if i = 0 then prev else Some (t ! (i - 1))) (Some (t ! i)))
              [0..<length t])"
proof (induction t arbitrary: prev)
  case Nil
  then show ?case by simp
next
  case (Cons c cs)
  let ?P = "\<lambda>i. startsWith (drop i (c # cs)) word
                \<and> wordBoundary (if i = 0 then prev else Some ((c # cs) ! (i - 1))) (Some ((c # cs) ! i))"
  let ?Q = "\<lambda>i. startsWith (drop i cs) word
                \<and> wordBoundary (if i = 0 then Some c else Some (cs ! (i - 1))) (Some (cs ! i))"
  have up: "[0..<length (c # cs)] = 0 # map Suc [0..<length cs]"
    by (simp add: upt_conv_Cons map_Suc_upt del: upt_Suc)
  have pq: "?P (Suc i) = ?Q i" for i by (cases i) simp_all
  have "length (filter ?P [0..<length (c # cs)])
        = (if ?P 0 then 1 else 0) + length (filter (?P \<circ> Suc) [0..<length cs])"
    unfolding up by (simp add: filter_map del: upt_Suc)
  also have "?P \<circ> Suc = ?Q" using pq by (simp add: fun_eq_iff)
  also have "length (filter ?Q [0..<length cs]) = occ word (Some c) cs"
    by (rule Cons.IH [symmetric])
  finally show ?case by simp
qed

lemma match_count_from_skip:
  "match_count_from word (length xs) prev (xs @ rest)
   = match_count_from word 0 (if xs = [] then prev else Some (last xs)) rest"
  by (induction xs arbitrary: prev) simp_all

lemma no_inner_startD:
  assumes "no_inner_start word" "word = us @ v # vs" "us \<noteq> []"
  shows "\<not> (v = hd word \<and> isWordChar (last us) \<noteq> isWordChar v)"
proof -
  let ?k = "length us"
  have "1 \<le> ?k" using assms(3) by (cases us) simp_all
  moreover have "?k < length word" using assms(2) by simp
  ultimately have k: "?k \<in> set [1..<length word]" by simp
  have "word ! ?k = v" using assms(2) by simp
  moreover have "word ! (?k - 1) = last us"
    using assms(2,3) by (simp add: nth_append last_conv_nth)
  ultimately show ?thesis
    using assms(1) k unfolding no_inner_start_def list_all_iff by metis
qed

lemma occ_inside_match:
  assumes "no_inner_start word" "word = us @ vs" "us \<noteq> []"
  shows "occ word (Some (last us)) (vs @ rest) = occ word (Some (last word)) rest"
  using assms(2,3)
proof (induction vs arbitrary: us)
  case Nil
  then show ?case by simp
next
  case (Cons v vs)
  have w: "word \<noteq> []" using Cons.prems by simp
  have "\<not> (startsWith (v # vs @ rest) word \<and> wordBoundary (Some (last us)) (Some v))"
  proof
    assume a: "startsWith (v # vs @ rest) word \<and> wordBoundary (Some (last us)) (Some v)"
    then obtain x where "v # vs @ rest = word @ x" by (auto simp: startsWith_iff)
    with w have "v = hd word" by (cases word) simp_all
    moreover from a have "isWordChar (last us) \<noteq> isWordChar v" by (simp add: wordBoundary_def)
    ultimately show False
      using no_inner_startD [OF assms(1) Cons.prems(1) Cons.prems(2)] by blast
  qed
  moreover have "occ word (Some (last (us @ [v]))) (vs @ rest) = occ word (Some (last word)) rest"
    using Cons.IH [of "us @ [v]"] Cons.prems by simp
  ultimately show ?case by simp
qed

lemma match_count_from_occ:
  assumes "word \<noteq> []" "no_inner_start word"
  shows "match_count_from word 0 prev t = occ word prev t"
proof (induction t arbitrary: prev rule: length_induct)
  case (1 t)
  show ?case
  proof (cases t)
    case Nil
    then show ?thesis by simp
  next
    case (Cons c cs)
    show ?thesis
    proof (cases "startsWith (c # cs) word \<and> wordBoundary prev (Some c)")
      case True
      then obtain rest where r: "c # cs = word @ rest" by (auto simp: startsWith_iff)
      with assms(1) obtain w' where w: "word = c # w'" "cs = w' @ rest"
        by (cases word) auto
      have "length rest < length t" using Cons w by simp
      then have ih: "match_count_from word 0 (Some (last word)) rest = occ word (Some (last word)) rest"
        using 1 by blast
      have "match_count_from word (length word - 1) (Some c) cs
            = match_count_from word 0 (Some (last word)) rest"
        using match_count_from_skip [of word w' "Some c" rest] w by simp
      moreover have "occ word (Some c) cs = occ word (Some (last word)) rest"
        using occ_inside_match [OF assms(2), of "[c]" w' rest] w by simp
      ultimately show ?thesis using True Cons ih by simp
    next
      case False
      have "length cs < length t" using Cons by simp
      then have "match_count_from word 0 (Some c) cs = occ word (Some c) cs"
        using 1 by blast
      then show ?thesis using False Cons by auto
    qed
  qed
qed

lemma match_count_positions:
  assumes "word \<noteq> []" "no_inner_start word"
  shows "match_count word t = length (filter (match_at word t) [0..<length t])"
proof -
  have "(\<lambda>i. startsWith (drop i t) word
            \<and> wordBoundary (if i = 0 then None else Some (t ! (i - 1))) (Some (t ! i)))
        = match_at word t"
    by (simp add: fun_eq_iff match_at_def)
  then show ?thesis
    using match_count_from_occ [OF assms, of None t] occ_positions [of word None t]
    by (simp add: match_count_def)
qed

lemma word_chars_no_inner_start:
  assumes "\<forall>c\<in>set word. isWordChar c"
  shows "no_inner_start word"
proof -
  have "isWordChar (word ! (k - 1)) = isWordChar (word ! k)" if "k \<in> set [1..<length word]" for k
  proof -
    from that have "k < length word" "k - 1 < length word" by auto
    then show ?thesis using assms by (metis nth_mem)
  qed
  then show ?thesis unfolding no_inner_start_def list_all_iff by blast
qed

lemma occ_repeated:
  assumes "word \<noteq> []" "\<forall>c\<in>set word. isWordChar c"
    and "prev = None \<or> prev = Some (CHR '' '')"
  shows "occ word prev (concat (replicate k (word @ '' '')) @ rest)
         = k + occ word (if k = 0 then prev else Some (CHR '' '')) rest"
  using assms(3)
proof (induction k arbitrary: prev)
  case 0
  then show ?case by simp
next
  case (Suc k)
  let ?tail = "concat (replicate k (word @ '' '')) @ rest"
  obtain c w' where w: "word = c # w'" using assms(1) by (cases word) auto
  have cw: "isWordChar c" using assms(2) w by simp
  have sp: "\<not> isWordChar (CHR '' '')" by (simp add: isWordChar_def)
  have b: "wordBoundary prev (Some c)"
    using Suc.prems cw sp by (auto simp: wordBoundary_def)
  have s: "startsWith (c # w' @ CHR '' '' # ?tail) word"
    unfolding startsWith_iff w by simp
  have inner: "occ word (Some c) (w' @ CHR '' '' # ?tail) = occ word (Some (last word)) (CHR '' '' # ?tail)"
    using occ_inside_match [OF word_chars_no_inner_start [OF assms(2)], of "[c]" w' "CHR '' '' # ?tail"] w
    by simp
  have nos: "\<not> startsWith (CHR '' '' # ?tail) word"
    using cw sp w by auto
  have "occ word prev (concat (replicate (Suc k) (word @ '' '')) @ rest)
        = occ word prev (c # w' @ CHR '' '' # ?tail)"
    by (simp add: w)
  also have "\<dots> = 1 + occ word (Some (CHR '' '')) ?tail"
    using b s inner nos by simp
  also have "\<dots> = 1 + (k + occ word (if k = 0 then Some (CHR '' '') else Some (CHR '' '')) rest)"
    using Suc.IH [of "Some (CHR '' '')"] by simp
  finally show ?case by simp
qed

lemma lexicon_no_inner_start:
  "list_all (\<lambda>w. w \<noteq> [] \<and> no_inner_start w) POSITIVE_WORDS"
  "list_all (\<lambda>w. w \<noteq> [] \<and> no_inner_start w) NEGATIVE_WORDS"
  by code_simp+

lemma bad_in_badge:
  "match_count ''bad'' (toLowerCase ''badge bad'') = 2"
  "length (filter (match_at ''bad'' (toLowerCase ''badge bad'')) [0..<length (toLowerCase ''badge bad'')]) = 2"
  "match_count ''bad'' (toLowerCase ''badge'') = 1"
  "spec_whole_word_count ''bad'' (toLowerCase ''badge'') = 0"
  "negative (analyzeSentiment ''badge'') = 1"
  "no_inner_start ''bad''"
  "list_all isWordChar ''bad''"
  by code_simp+


text \<open>
  Claim C6, as the code has it. In scout.js an entry of a lexicon is counted once for every
  position of the lowercased text where the entry starts and that is a word boundary; the
  entry need not end at a word boundary, so \<open>bad\<close> is counted in \<open>badge\<close>. This holds for
  every entry that cannot start again inside itself at a word boundary, which all entries
  of both lexicons satisfy, so each score before the negation loop is the sum of these
  numbers of positions over the lexicon. Every occurrence counts: a word of letters,
  digits and underscores written \<open>k\<close> times, each time followed by a space, is counted
  \<open>k\<close> times. The scorer of notify.js counts an entry once when the lowercased text
  contains it anywhere, however often.
\<close>

theorem C6_matches_start_at_word_boundaries:
  "(word \<noteq> [] \<and> no_inner_start word \<longrightarrow>
      match_count word t = length (filter (match_at word t) [0..<length t]))
   \<and> (word \<noteq> [] \<and> (\<forall>c\<in>set word. isWordChar c) \<longrightarrow>
      match_count word (concat (replicate k (word @ '' ''))) = k)
   \<and> lexicon_hits POSITIVE_WORDS t
       = (\<Sum>w\<leftarrow>POSITIVE_WORDS. int (length (filter (match_at w t) [0..<length t])))
   \<and> lexicon_hits NEGATIVE_WORDS t
       = (\<Sum>w\<leftarrow>NEGATIVE_WORDS. int (length (filter (match_at w t) [0..<length t])))
   \<and> substring_hits lexicon t = int (length (filter (\<lambda>w. \<exists>u v. t = u @ w @ v) lexicon))"
proof -
  have d: "substring_hits lexicon t = int (length (filter (\<lambda>w. \<exists>u v. t = u @ w @ v) lexicon))"
    by (simp add: substring_hits_def includes_str_iff)
  have a: "word \<noteq> [] \<and> no_inner_start word \<longrightarrow>
      match_count word t = length (filter (match_at word t) [0..<length t])"
    using match_count_positions by blast
  have b: "word \<noteq> [] \<and> (\<forall>c\<in>set word. isWordChar c) \<longrightarrow>
      match_count word (concat (replicate k (word @ '' ''))) = k"
  proof
    assume h: "word \<noteq> [] \<and> (\<forall>c\<in>set word. isWordChar c)"
    then have n: "no_inner_start word" by (simp add: word_chars_no_inner_start)
    have "occ word None (concat (replicate k (word @ '' '')) @ []) = k + occ word (if k = 0 then None else Some (CHR '' '')) []"
      using occ_repeated [of word None k "[]"] h by blast
    then show "match_count word (concat (replicate k (word @ '' ''))) = k"
      using match_count_from_occ [of word None "concat (replicate k (word @ '' ''))"] h n
      by (simp add: match_count_def)
  qed
  have c: "lexicon_hits lexicon t
       = (\<Sum>w\<leftarrow>lexicon. int (length (filter (match_at w t) [0..<length t])))"
    if "list_all (\<lambda>w. w \<noteq> [] \<and> no_inner_start w) lexicon" for lexicon
  proof -
    have m: "map (\<lambda>w. int (match_count w t)) lexicon
          = map (\<lambda>w. int (length (filter (match_at w t) [0..<length t]))) lexicon"
      using that by (intro map_cong refl) (simp add: list_all_iff match_count_positions)
    show ?thesis by (simp only: lexicon_hits_def m)
  qed
  show ?thesis
    using a b c [OF lexicon_no_inner_start(1)] c [OF lexicon_no_inner_start(2)] d by blast
qed

theorem C6_matches_start_at_word_boundaries_witness:
  "match_count ''bad'' (toLowerCase ''badge bad'') = 2
   \<and> length (filter (match_at ''bad'' (toLowerCase ''badge bad''))
               [0..<length (toLowerCase ''badge bad'')]) = 2
   \<and> match_count ''bad'' (concat (replicate 3 (''bad'' @ '' ''))) = 3"
proof -
  have h: "''bad'' \<noteq> [] \<and> no_inner_start ''bad''" by (simp add: bad_in_badge)
  have l: "''bad'' \<noteq> [] \<and> (\<forall>c\<in>set ''bad''. isWordChar c)"
    using bad_in_badge(7) by (simp add: list_all_iff)
  from C6_matches_start_at_word_boundaries [of "''bad''" "toLowerCase ''badge bad''" 3] h l
  show ?thesis by (simp add: bad_in_badge)
qed

text \<open>
  Claim C6 as stated fails: \<open>badge\<close> contains no whole-word match of \<open>bad\<close>, and the
  scorer counts one negative hit.
\<close>

theorem C6_counterexample:
  "negative (analyzeSentiment ''badge'') = 1
   \<and> match_count ''bad'' (toLowerCase ''badge'') = 1
   \<and> spec_whole_word_count ''bad'' (toLowerCase ''badge'') = 0"
  by (simp add: bad_in_badge)


section \<open>Properties of the pain point detection\<close>

lemma map_of_matched_categories:
  assumes "distinct (map fst catalog)"
  shows "map_of (matched_categories catalog t) c
         = (case map_of catalog c of
              None \<Rightarrow> None
            | Some sigs \<Rightarrow> if filter (\<lambda>s. includes_str t s) sigs = [] then None
                          else Some (filter (\<lambda>s. includes_str t s) sigs))"
  using assms
proof (induction catalog)
  case Nil
  then show ?case by (simp add: matched_categories_def)
next
  case (Cons e catalog)
  obtain c' sigs where e: "e = (c', sigs)" by (cases e)
  have ih: "map_of (matched_categories catalog t) c
         = (case map_of catalog c of
              None \<Rightarrow> None
            | Some sigs \<Rightarrow> if filter (\<lambda>s. includes_str t s) sigs = [] then None
                          else Some (filter (\<lambda>s. includes_str t s) sigs))"
    using Cons by simp
  have notin: "c' \<notin> fst ` set catalog" using Cons.prems e by simp
  then have none: "map_of catalog c' = None" by (simp add: map_of_eq_None_iff)
  have step: "matched_categories (e # catalog) t
        = (if filter (\<lambda>s. includes_str t s) sigs = [] then matched_categories catalog t
           else (c', filter (\<lambda>s. includes_str t s) sigs) # matched_categories catalog t)"
    by (simp add: matched_categories_def e)
  show ?case
  proof (cases "c = c'")
    case True
    then show ?thesis using step ih none e by simp
  next
    case False
    then show ?thesis using step ih e by simp
  qed
qed

lemma concat_matched_categories:
  "concat (map snd (matched_categories catalog t))
   = filter (\<lambda>s. includes_str t s) (all_signals catalog)"
  by (induction catalog) (auto simp: matched_categories_def all_signals_def)

lemma has_signal_iff:
  "has_signal catalog p \<longleftrightarrow> (\<exists>s\<in>set (all_signals catalog). \<exists>u v. post_lowerText p = u @ s @ v)"
  by (simp add: has_signal_def list_ex_iff includes_str_iff)

lemma detectPainPoints_pricing_post:
  "detectPainPoints [pricing_post] False
     = [\<lparr> pp_post = pricing_post, signals = [''need help'', ''too expensive''],
          categories = [(''helpSeeking'', [''need help'']), (''pricing'', [''too expensive''])],
          pp_sentiment = None \<rparr>]"
  by code_simp

lemma PAIN_SIGNALS_distinct: "distinct (map fst PAIN_SIGNALS)"
  by (simp add: PAIN_SIGNALS_def)


text \<open>
  Claim C8. For a catalog whose category names are distinct (the keys of an object):
  the posts of the result are, in order, exactly the posts whose lowercased title, space
  and self text contain a phrase of the catalog as a substring, so a post is left out iff
  it contains none. For every element of the result, the categories map a category to its
  matched phrases iff the category has a matched phrase; the signals are the matched
  phrases of the categories, one category after the other, there is at least one, and as
  a set they are the phrases of the catalog that the text contains.
\<close>

theorem C8_categorizer:
  assumes "distinct (map fst catalog)"
  shows "map pp_post (detectPainPoints_in catalog posts inc)
           = filter (\<lambda>p. \<exists>s\<in>set (all_signals catalog). \<exists>u v. post_lowerText p = u @ s @ v) posts
       \<and> (\<forall>r\<in>set (detectPainPoints_in catalog posts inc).
            (\<forall>c ms. map_of (categories r) c = Some ms \<longleftrightarrow>
               (\<exists>sigs. map_of catalog c = Some sigs
                  \<and> ms = filter (\<lambda>s. \<exists>u v. post_lowerText (pp_post r) = u @ s @ v) sigs
                  \<and> ms \<noteq> []))
          \<and> signals r = concat (map snd (categories r))
          \<and> signals r \<noteq> []
          \<and> set (signals r)
              = {s \<in> set (all_signals catalog). \<exists>u v. post_lowerText (pp_post r) = u @ s @ v})"
proof -
  have flt: "filter (has_signal catalog) posts
      = filter (\<lambda>p. \<exists>s\<in>set (all_signals catalog). \<exists>u v. post_lowerText p = u @ s @ v) posts"
    by (rule filter_cong [OF refl]) (simp add: has_signal_iff)
  have a: "map pp_post (detectPainPoints_in catalog posts inc)
           = filter (\<lambda>p. \<exists>s\<in>set (all_signals catalog). \<exists>u v. post_lowerText p = u @ s @ v) posts"
    unfolding detectPainPoints_in_def flt [symmetric] by (simp add: annotate_def comp_def)
  have b: "(\<forall>c ms. map_of (categories r) c = Some ms \<longleftrightarrow>
               (\<exists>sigs. map_of catalog c = Some sigs
                  \<and> ms = filter (\<lambda>s. \<exists>u v. post_lowerText (pp_post r) = u @ s @ v) sigs
                  \<and> ms \<noteq> []))
          \<and> signals r = concat (map snd (categories r))
          \<and> signals r \<noteq> []
          \<and> set (signals r)
              = {s \<in> set (all_signals catalog). \<exists>u v. post_lowerText (pp_post r) = u @ s @ v}"
    if r: "r \<in> set (detectPainPoints_in catalog posts inc)" for r
  proof -
    from r obtain p where p: "has_signal catalog p" "r = annotate catalog inc p"
      by (auto simp: detectPainPoints_in_def)
    let ?t = "post_lowerText p"
    have post: "pp_post r = p" and sig: "signals r = filter (\<lambda>s. includes_str ?t s) (all_signals catalog)"
      and cat: "categories r = matched_categories catalog ?t"
      using p(2) by (simp_all add: annotate_def)
    have inc_eq: "(\<lambda>s. includes_str ?t s) = (\<lambda>s. \<exists>u v. ?t = u @ s @ v)"
      by (simp add: includes_str_iff)
    have 1: "\<forall>c ms. map_of (categories r) c = Some ms \<longleftrightarrow>
               (\<exists>sigs. map_of catalog c = Some sigs
                  \<and> ms = filter (\<lambda>s. \<exists>u v. post_lowerText (pp_post r) = u @ s @ v) sigs
                  \<and> ms \<noteq> [])"
      unfolding cat post map_of_matched_categories [OF assms] inc_eq
      by (auto split: option.splits)
    have 2: "signals r = concat (map snd (categories r))"
      unfolding cat sig by (rule concat_matched_categories [symmetric])
    have 3: "signals r \<noteq> []"
      using p(1) unfolding sig has_signal_def list_ex_iff by (auto simp: filter_empty_conv)
    have 4: "set (signals r)
              = {s \<in> set (all_signals catalog). \<exists>u v. post_lowerText (pp_post r) = u @ s @ v}"
      unfolding sig post by (auto simp: includes_str_iff)
    show ?thesis using 1 2 3 4 by blast
  qed
  show ?thesis using a b by blast
qed

theorem C8_categorizer_witness:
  "map pp_post (detectPainPoints_in PAIN_SIGNALS [pricing_post] False) = [pricing_post]
   \<and> map (map fst \<circ> categories) (detectPainPoints_in PAIN_SIGNALS [pricing_post] False)
       = [[''helpSeeking'', ''pricing'']]
   \<and> map signals (detectPainPoints_in PAIN_SIGNALS [pricing_post] False)
       = [[''need help'', ''too expensive'']]"
  using C8_categorizer [OF PAIN_SIGNALS_distinct, of "[pricing_post]" False]
        detectPainPoints_pricing_post
  by (simp add: detectPainPoints_def)


section \<open>Properties of the digests\<close>

lemma digest_loop_eq:
  "digest_loop fetch cutoff subs acc
   = (fst acc @ concat (map (\<lambda>sub. map (Pair sub) (in_window fetch cutoff sub)) subs),
      snd acc @ concat (map (\<lambda>sub. map (Pair sub)
                               (detectPainPoints (in_window fetch cutoff sub) True)) subs))"
proof (induction subs arbitrary: acc)
  case Nil
  then show ?case by simp
next
  case (Cons sub subs)
  show ?case
    by (cases "fetch sub")
       (auto simp: Cons.IH in_window_def Let_def detectPainPoints_def detectPainPoints_in_def
             split: option.splits)
qed

lemma count_labels_total:
  "list_all (\<lambda>l. l \<noteq> None) ls \<Longrightarrow>
   count_positive (count_labels ls) + count_negative (count_labels ls)
     + count_neutral (count_labels ls) = length ls"
proof (induction ls)
  case Nil
  then show ?case by (simp add: count_labels_def)
next
  case (Cons l ls)
  then obtain x where "l = Some x" by auto
  with Cons show ?case by (cases x) (auto simp: count_labels_def)
qed

lemma pain_labels:
  "map (\<lambda>p. map_option label (pp_sentiment (snd p)))
     (concat (map (\<lambda>sub. map (Pair sub) (detectPainPoints (f sub) True)) subs))
   = map (\<lambda>p. Some (label (analyzeSentiment (post_text p))))
       (filter (has_signal PAIN_SIGNALS) (concat (map f subs)))"
  by (induction subs)
     (simp_all add: detectPainPoints_def detectPainPoints_in_def annotate_def comp_def)

lemma length_tagged:
  "length (concat (map (\<lambda>sub. map (Pair sub) (f sub)) subs)) = length (concat (map f subs))"
  by (induction subs) simp_all

lemma length_tagged_pain_points:
  "length (concat (map (\<lambda>sub. map (Pair sub) (detectPainPoints (f sub) True)) subs))
   = length (filter (has_signal PAIN_SIGNALS) (concat (map f subs)))"
  by (induction subs) (simp_all add: detectPainPoints_def detectPainPoints_in_def)

lemma digest_fetch_daily:
  "generateDailyDigest digest_fetch 2000000 24 [''SaaS'']
   = \<lparr> totalPosts = 2, totalPainPoints = 1,
       sentimentOverview = \<lparr> count_positive = 0, count_negative = 1, count_neutral = 0 \<rparr> \<rparr>"
  by code_simp

lemma digest_fetch_notify:
  "generateDigest (Some [saas_alert]) digest_fetch 2000000
   = Some \<lparr> digest_subreddits = [''SaaS''], stats_totalPosts = 2,
            stats_sentiment = \<lparr> count_positive = 1, count_negative = 1, count_neutral = 0 \<rparr> \<rparr>"
  by code_simp

lemma love_fetch_notify:
  "generateDigest (Some [saas_alert]) love_fetch 2000000
   = Some \<lparr> digest_subreddits = [''SaaS''], stats_totalPosts = 1,
            stats_sentiment = \<lparr> count_positive = 1, count_negative = 0, count_neutral = 0 \<rparr> \<rparr>"
  by code_simp

lemma love_child_no_pain_point:
  "extractPosts [love_child] = Some [extract_post love_child]"
  "detectPainPoints [extract_post love_child] True = []"
  by code_simp+

text \<open>
  Claim C9, as the code has it. The daily digest of scout.js counts in its sentiment
  overview only the in-window posts that matched a pain point signal: the overview is the
  count of the labels of those posts, and its three numbers add up to the number of pain
  points. The digest of notify.js, which detects no pain points, counts the labels of all
  the in-window posts it fetched: its three numbers add up to the number of posts.
\<close>

theorem C9_digest_sentiment_overview:
  "(let d = generateDailyDigest fetch now hours subs;
        window = concat (map (in_window fetch (now - hours * 60 * 60 * 1000)) subs);
        painPoints = filter (has_signal PAIN_SIGNALS) window
    in totalPosts d = length window
     \<and> totalPainPoints d = length painPoints
     \<and> sentimentOverview d
         = count_labels (map (\<lambda>p. Some (label (analyzeSentiment (post_text p)))) painPoints)
     \<and> count_positive (sentimentOverview d) + count_negative (sentimentOverview d)
         + count_neutral (sentimentOverview d) = totalPainPoints d)
   \<and> (\<forall>d. generateDigest alerts fetch now = Some d \<longrightarrow>
        (let allPosts = digest_posts fetch (now - 24 * 60 * 60 * 1000) (digest_subreddits d)
         in stats_totalPosts d = length allPosts
          \<and> stats_sentiment d
              = count_labels (map (\<lambda>p. Some (n_label (notify_analyzeSentiment (child_text p)))) allPosts)
          \<and> count_positive (stats_sentiment d) + count_negative (stats_sentiment d)
              + count_neutral (stats_sentiment d) = stats_totalPosts d))"
proof -
  let ?cutoff = "now - hours * 60 * 60 * 1000"
  let ?window = "concat (map (in_window fetch ?cutoff) subs)"
  let ?pain = "filter (has_signal PAIN_SIGNALS) ?window"
  let ?d = "generateDailyDigest fetch now hours subs"
  have tp: "totalPosts ?d = length ?window"
    by (simp add: generateDailyDigest_def Let_def digest_loop_eq length_tagged)
  have tpp: "totalPainPoints ?d = length ?pain"
    by (simp add: generateDailyDigest_def Let_def digest_loop_eq length_tagged_pain_points)
  have so: "sentimentOverview ?d
         = count_labels (map (\<lambda>p. Some (label (analyzeSentiment (post_text p)))) ?pain)"
    by (simp add: generateDailyDigest_def Let_def digest_loop_eq pain_labels)
  have sum: "count_positive (sentimentOverview ?d) + count_negative (sentimentOverview ?d)
         + count_neutral (sentimentOverview ?d) = totalPainPoints ?d"
    unfolding so tpp
    using count_labels_total [of "map (\<lambda>p. Some (label (analyzeSentiment (post_text p)))) ?pain"]
    by (simp add: list_all_iff)
  have notify: "(let allPosts = digest_posts fetch (now - 24 * 60 * 60 * 1000) (digest_subreddits d)
         in stats_totalPosts d = length allPosts
          \<and> stats_sentiment d
              = count_labels (map (\<lambda>p. Some (n_label (notify_analyzeSentiment (child_text p)))) allPosts)
          \<and> count_positive (stats_sentiment d) + count_negative (stats_sentiment d)
              + count_neutral (stats_sentiment d) = stats_totalPosts d)"
    if "generateDigest alerts fetch now = Some d" for d
  proof -
    let ?all = "digest_posts fetch (now - 24 * 60 * 60 * 1000) (digest_subreddits d)"
    from that have d: "stats_totalPosts d = length ?all"
      "stats_sentiment d
         = count_labels (map (\<lambda>p. Some (n_label (notify_analyzeSentiment (child_text p)))) ?all)"
      by (auto simp: generateDigest_def Let_def split: if_splits)
    have "count_positive (stats_sentiment d) + count_negative (stats_sentiment d)
              + count_neutral (stats_sentiment d) = stats_totalPosts d"
      unfolding d
      using count_labels_total
        [of "map (\<lambda>p. Some (n_label (notify_analyzeSentiment (child_text p)))) ?all"]
      by (simp add: list_all_iff)
    with d show ?thesis by (simp add: Let_def)
  qed
  show ?thesis
    unfolding Let_def using tp tpp so sum notify [unfolded Let_def] by blast
qed

theorem C9_digest_sentiment_overview_witness:
  "totalPosts (generateDailyDigest digest_fetch 2000000 24 [''SaaS'']) = 2
   \<and> totalPainPoints (generateDailyDigest digest_fetch 2000000 24 [''SaaS'']) = 1
   \<and> count_positive (sentimentOverview (generateDailyDigest digest_fetch 2000000 24 [''SaaS''])) = 0
   \<and> count_negative (sentimentOverview (generateDailyDigest digest_fetch 2000000 24 [''SaaS''])) = 1
   \<and> count_neutral (sentimentOverview (generateDailyDigest digest_fetch 2000000 24 [''SaaS''])) = 0
   \<and> length (digest_posts digest_fetch (2000000 - 24 * 60 * 60 * 1000) [''SaaS'']) = 2"
  using C9_digest_sentiment_overview [of digest_fetch 2000000 24 "[''SaaS'']" "Some [saas_alert]"]
  by (simp add: Let_def digest_fetch_daily digest_fetch_notify)

text \<open>
  Claim C9 as stated fails for the digest of notify.js: the one fetched post matches no
  pain point signal, and the digest counts it as positive.
\<close>

theorem C9_counterexample:
  "generateDigest (Some [saas_alert]) love_fetch 2000000
     = Some \<lparr> digest_subreddits = [''SaaS''], stats_totalPosts = 1,
              stats_sentiment = \<lparr> count_positive = 1, count_negative = 0, count_neutral = 0 \<rparr> \<rparr>
   \<and> extractPosts [love_child] = Some [extract_post love_child]
   \<and> detectPainPoints [extract_post love_child] True = []"
  by (simp add: love_fetch_notify love_child_no_pain_point)

section \<open>Properties of the seen set\<close>

lemma loadJSON_simps: "loadJSON (Some v) d = v" "loadJSON None d = d"
  by (simp_all add: loadJSON_def)

lemma set_markSeen: "set (markSeen seen k) = insert k (set seen)"
  by (auto simp: markSeen_def has_def)




lemma foldl_markSeen_fresh:
  "distinct ks \<Longrightarrow> set ks \<inter> set seen = {} \<Longrightarrow> foldl markSeen seen ks = seen @ ks"
proof (induction ks arbitrary: seen)
  case Nil
  then show ?case by simp
next
  case (Cons k ks)
  have "markSeen seen k = seen @ [k]" using Cons.prems by (simp add: markSeen_def has_def)
  moreover have "set ks \<inter> set (seen @ [k]) = {}" using Cons.prems by auto
  ultimately show ?case using Cons.IH [of "seen @ [k]"] Cons.prems by simp
qed






section \<open>The check cycle of the notifier reports a post once\<close>

text \<open>
  Along \<open>checkAlerts\<close> of notify.js the seen set only grows, every reported match adds
  one new key, and a post that an alert can report is in the set once the alert's
  subreddit has been walked. So a second cycle over the same fetched data, started from
  the file the first one wrote, reports nothing, as long as the set holds at most 1000
  keys after the first cycle.
\<close>

lemma notify_scan_grows:
  "set (fst st) \<subseteq> set (fst (notify_scan a sub ps st))"
proof (induction ps arbitrary: st)
  case Nil
  then show ?case by simp
next
  case (Cons p ps)
  show ?case
    using Cons.IH [of st]
          Cons.IH [of "(markSeen (fst st) (data_id p), snd st @ [m])" for m]
    by (auto simp: Let_def set_markSeen)
qed

lemma notify_scan_marks:
  "p \<in> set ps \<Longrightarrow> reportable a p \<Longrightarrow> data_id p \<in> set (fst (notify_scan a sub ps st))"
proof (induction ps arbitrary: st)
  case Nil
  then show ?case by simp
next
  case (Cons q ps)
  show ?case
  proof (cases "p = q")
    case True
    show ?thesis
    proof (cases "has (fst st) (data_id q)")
      case h: True
      then have "data_id q \<in> set (fst st)" by (simp add: has_def)
      then show ?thesis using notify_scan_grows [of st a sub "q # ps"] True by blast
    next
      case h: False
      let ?st' = "(markSeen (fst st) (data_id q),
                   snd st @ [\<lparr> nm_subreddit = sub,
                       nm_keywords = matchedKeywords a (toLowerCase (child_text q)),
                       nm_title = take 100 (data_title q),
                       nm_url = ''https://reddit.com'' @ permalink q,
                       nm_author = data_author q, nm_score = data_score q,
                       nm_sentiment = notify_analyzeSentiment (child_text q) \<rparr>])"
      have "notify_scan a sub (q # ps) st = notify_scan a sub ps ?st'"
        using h Cons.prems(2) True by (simp add: Let_def reportable_def)
      moreover have "data_id q \<in> set (fst ?st')" by (simp add: set_markSeen)
      ultimately show ?thesis using notify_scan_grows [of ?st' a sub ps] True by auto
    qed
  next
    case False
    then have "p \<in> set ps" using Cons.prems(1) by simp
    then show ?thesis
      using Cons.IH [OF _ Cons.prems(2)] by (auto simp: Let_def)
  qed
qed

lemma notify_scan_idle:
  "(\<forall>p\<in>set ps. reportable a p \<longrightarrow> data_id p \<in> set (fst st)) \<Longrightarrow> notify_scan a sub ps st = st"
  by (induction ps arbitrary: st) (auto simp: Let_def reportable_def has_def)

lemma notify_scan_lengths:
  "distinct (fst st) \<Longrightarrow>
   distinct (fst (notify_scan a sub ps st))
   \<and> length (fst (notify_scan a sub ps st)) + length (snd st)
       = length (fst st) + length (snd (notify_scan a sub ps st))"
proof (induction ps arbitrary: st)
  case Nil
  then show ?case by simp
next
  case (Cons p ps)
  show ?case
  proof (cases "\<not> has (fst st) (data_id p) \<and> reportable a p")
    case True
    let ?st' = "(markSeen (fst st) (data_id p),
                   snd st @ [\<lparr> nm_subreddit = sub,
                       nm_keywords = matchedKeywords a (toLowerCase (child_text p)),
                       nm_title = take 100 (data_title p),
                       nm_url = ''https://reddit.com'' @ permalink p,
                       nm_author = data_author p, nm_score = data_score p,
                       nm_sentiment = notify_analyzeSentiment (child_text p) \<rparr>])"
    have e: "notify_scan a sub (p # ps) st = notify_scan a sub ps ?st'"
      using True by (simp add: Let_def reportable_def)
    have m: "fst ?st' = fst st @ [data_id p]" using True by (simp add: markSeen_def)
    have d: "distinct (fst ?st')" using True Cons.prems unfolding m by (simp add: has_def)
    from Cons.IH [OF d] show ?thesis unfolding e using m by simp
  next
    case False
    then have "notify_scan a sub (p # ps) st = notify_scan a sub ps st"
      by (auto simp: Let_def reportable_def)
    then show ?thesis using Cons.IH [OF Cons.prems] by simp
  qed
qed


lemma notify_alert_subs:
  "notify_alert fetch st a
   = foldl (\<lambda>st sub. case fetchSubreddit fetch sub of
                        None \<Rightarrow> st
                      | Some posts \<Rightarrow> notify_scan a sub posts st) st (alert_subreddits a)"
  by (simp add: notify_alert_def)

lemma sub_fold_grows:
  "set (fst st) \<subseteq> set (fst (foldl (\<lambda>st sub. case fetchSubreddit fetch sub of
                        None \<Rightarrow> st
                      | Some posts \<Rightarrow> notify_scan a sub posts st) st subs))"
proof (induction subs arbitrary: st)
  case Nil
  then show ?case by simp
next
  case (Cons sub subs)
  show ?case
  proof (cases "fetchSubreddit fetch sub")
    case None
    then show ?thesis using Cons.IH [of st] by simp
  next
    case (Some posts)
    then show ?thesis
      using Cons.IH [of "notify_scan a sub posts st"] notify_scan_grows [where st = st and a = a and sub = sub and ps = posts]
      by auto
  qed
qed

lemma sub_fold_marks:
  assumes "sub \<in> set subs" "fetchSubreddit fetch sub = Some posts" "p \<in> set posts" "reportable a p"
  shows "data_id p \<in> set (fst (foldl (\<lambda>st sub. case fetchSubreddit fetch sub of
                        None \<Rightarrow> st
                      | Some posts \<Rightarrow> notify_scan a sub posts st) st subs))"
  using assms(1)
proof (induction subs arbitrary: st)
  case Nil
  then show ?case by simp
next
  case (Cons s subs)
  let ?step = "\<lambda>st sub. case fetchSubreddit fetch sub of
                        None \<Rightarrow> st
                      | Some posts \<Rightarrow> notify_scan a sub posts st"
  show ?case
  proof (cases "sub = s")
    case True
    have "data_id p \<in> set (fst (?step st s))"
      using True assms(2-4) by (simp add: notify_scan_marks)
    then show ?thesis using sub_fold_grows [where st = "?step st s" and fetch = fetch and a = a and subs = subs] by auto
  next
    case False
    then have "sub \<in> set subs" using Cons.prems by simp
    from Cons.IH [OF this, of "?step st s"] show ?thesis by simp
  qed
qed

lemma sub_fold_idle:
  assumes "\<forall>sub\<in>set subs. \<forall>posts. fetchSubreddit fetch sub = Some posts \<longrightarrow>
             (\<forall>p\<in>set posts. reportable a p \<longrightarrow> data_id p \<in> set (fst st))"
  shows "foldl (\<lambda>st sub. case fetchSubreddit fetch sub of
                        None \<Rightarrow> st
                      | Some posts \<Rightarrow> notify_scan a sub posts st) st subs = st"
  using assms
proof (induction subs)
  case Nil
  then show ?case by simp
next
  case (Cons s subs)
  have "(case fetchSubreddit fetch s of None \<Rightarrow> st | Some posts \<Rightarrow> notify_scan a s posts st) = st"
    using Cons.prems by (auto split: option.splits intro: notify_scan_idle)
  then show ?case using Cons by simp
qed

lemma sub_fold_lengths:
  "distinct (fst st) \<Longrightarrow>
   distinct (fst (foldl (\<lambda>st sub. case fetchSubreddit fetch sub of
                        None \<Rightarrow> st
                      | Some posts \<Rightarrow> notify_scan a sub posts st) st subs))
   \<and> length (fst (foldl (\<lambda>st sub. case fetchSubreddit fetch sub of
                        None \<Rightarrow> st
                      | Some posts \<Rightarrow> notify_scan a sub posts st) st subs)) + length (snd st)
       = length (fst st) + length (snd (foldl (\<lambda>st sub. case fetchSubreddit fetch sub of
                        None \<Rightarrow> st
                      | Some posts \<Rightarrow> notify_scan a sub posts st) st subs))"
proof (induction subs arbitrary: st)
  case Nil
  then show ?case by simp
next
  case (Cons s subs)
  let ?st' = "case fetchSubreddit fetch s of None \<Rightarrow> st | Some posts \<Rightarrow> notify_scan a s posts st"
  have st': "distinct (fst ?st') \<and> length (fst ?st') + length (snd st) = length (fst st) + length (snd ?st')"
    using Cons.prems notify_scan_lengths [where st = st and a = a and sub = s] by (auto split: option.splits)
  from Cons.IH [of ?st'] st' show ?case by simp
qed

lemma alert_fold_grows:
  "set (fst st) \<subseteq> set (fst (foldl (notify_alert fetch) st alerts))"
proof (induction alerts arbitrary: st)
  case Nil
  then show ?case by simp
next
  case (Cons a alerts)
  have "set (fst st) \<subseteq> set (fst (notify_alert fetch st a))"
    unfolding notify_alert_subs by (rule sub_fold_grows)
  then show ?case using Cons.IH [of "notify_alert fetch st a"] by auto
qed

lemma alert_fold_marks:
  assumes "a \<in> set alerts" "sub \<in> set (alert_subreddits a)"
    "fetchSubreddit fetch sub = Some posts" "p \<in> set posts" "reportable a p"
  shows "data_id p \<in> set (fst (foldl (notify_alert fetch) st alerts))"
  using assms(1)
proof (induction alerts arbitrary: st)
  case Nil
  then show ?case by simp
next
  case (Cons b alerts)
  show ?case
  proof (cases "a = b")
    case True
    have "data_id p \<in> set (fst (notify_alert fetch st b))"
      unfolding notify_alert_subs using True assms(2-5) by (simp add: sub_fold_marks)
    then show ?thesis using alert_fold_grows [where st = "notify_alert fetch st b" and fetch = fetch and alerts = alerts] by auto
  next
    case False
    then have "a \<in> set alerts" using Cons.prems by simp
    from Cons.IH [OF this, of "notify_alert fetch st b"] show ?thesis by simp
  qed
qed

lemma alert_fold_idle:
  assumes "\<forall>a\<in>set alerts. \<forall>sub\<in>set (alert_subreddits a). \<forall>posts.
             fetchSubreddit fetch sub = Some posts \<longrightarrow>
             (\<forall>p\<in>set posts. reportable a p \<longrightarrow> data_id p \<in> set (fst st))"
  shows "foldl (notify_alert fetch) st alerts = st"
  using assms
proof (induction alerts)
  case Nil
  then show ?case by simp
next
  case (Cons a alerts)
  have "notify_alert fetch st a = st"
    unfolding notify_alert_subs using Cons.prems by (intro sub_fold_idle) simp
  then show ?case using Cons by simp
qed

lemma alert_fold_lengths:
  "distinct (fst st) \<Longrightarrow>
   distinct (fst (foldl (notify_alert fetch) st alerts))
   \<and> length (fst (foldl (notify_alert fetch) st alerts)) + length (snd st)
       = length (fst st) + length (snd (foldl (notify_alert fetch) st alerts))"
proof (induction alerts arbitrary: st)
  case Nil
  then show ?case by simp
next
  case (Cons a alerts)
  have st': "distinct (fst (notify_alert fetch st a))
      \<and> length (fst (notify_alert fetch st a)) + length (snd st)
          = length (fst st) + length (snd (notify_alert fetch st a))"
    unfolding notify_alert_subs using Cons.prems by (rule sub_fold_lengths)
  from Cons.IH [of "notify_alert fetch st a"] st' show ?case by simp
qed

lemma distinct_foldl_markSeen: "distinct seen \<Longrightarrow> distinct (foldl markSeen seen ks)"
  by (induction ks arbitrary: seen) (simp_all add: markSeen_def has_def)

lemma distinct_load_seen: "distinct (load_seen seen_file)"
  by (simp add: load_seen_def new_Set_def distinct_foldl_markSeen)

lemma load_flush_within_cap:
  assumes "distinct seen" "length seen \<le> 1000"
  shows "load_seen (flush seen) = seen"
  using assms foldl_markSeen_fresh [of seen "[]"]
  by (simp add: load_seen_def flush_def loadJSON_simps new_Set_def)

theorem notify_second_cycle_emits_nothing:
  assumes "length (load_seen stored_seen) + length (fst (notify_checkAlerts stored_alerts stored_seen fetch))
           \<le> 1000"
  shows "fst (notify_checkAlerts stored_alerts
                (snd (notify_checkAlerts stored_alerts stored_seen fetch)) fetch) = []"
proof -
  let ?alerts = "filter enabled (loadJSON stored_alerts [])"
  let ?st1 = "foldl (notify_alert fetch) (load_seen stored_seen, []) ?alerts"
  have run1: "notify_checkAlerts stored_alerts stored_seen fetch = (snd ?st1, flush (fst ?st1))"
    by (simp add: notify_checkAlerts_def Let_def)
  from alert_fold_lengths [where st = "(load_seen stored_seen, [])" and fetch = fetch and alerts = ?alerts]
  have d: "distinct (fst ?st1)" and l: "length (fst ?st1) = length (load_seen stored_seen) + length (snd ?st1)"
    by (simp_all add: distinct_load_seen)
  have cap: "length (fst ?st1) \<le> 1000" using assms l by (simp add: run1)
  have reload: "load_seen (flush (fst ?st1)) = fst ?st1"
    by (rule load_flush_within_cap [OF d cap])
  have covered: "\<forall>a\<in>set ?alerts. \<forall>sub\<in>set (alert_subreddits a). \<forall>posts.
             fetchSubreddit fetch sub = Some posts \<longrightarrow>
             (\<forall>p\<in>set posts. reportable a p \<longrightarrow> data_id p \<in> set (fst (fst ?st1, [])))"
    using alert_fold_marks [where alerts = ?alerts and fetch = fetch and st = "(load_seen stored_seen, [])"] by simp
  have "foldl (notify_alert fetch) (fst ?st1, []) ?alerts = (fst ?st1, [])"
    by (rule alert_fold_idle [OF covered])
  then show ?thesis
    by (simp add: notify_checkAlerts_def Let_def run1 reload)
qed


section \<open>Properties of the scheduler\<close>

lemma findIndex_None_iff: "findIndex P xs = None \<longleftrightarrow> (\<forall>x\<in>set xs. \<not> P x)"
  by (induction xs) auto

lemma findIndex_Some:
  "findIndex P xs = Some idx \<Longrightarrow> idx < length xs \<and> P (xs ! idx)"
  by (induction xs arbitrary: idx) (auto split: if_splits)

lemma cancelPost_found:
  assumes "findIndex (\<lambda>p. sp_id p = i) (loadJSON (schedule_file fs) []) = Some idx"
  shows "cancelPost i now fs =
           (Some ((loadJSON (schedule_file fs) [] ! idx)\<lparr> status := Cancelled, cancelledAt := Some now \<rparr>),
            fs\<lparr> schedule_file := Some ((loadJSON (schedule_file fs) [])
                 [idx := (loadJSON (schedule_file fs) [] ! idx)\<lparr> status := Cancelled, cancelledAt := Some now \<rparr>]) \<rparr>)"
  using assms by (simp add: cancelPost_def Let_def)

lemma cancelPost_not_found:
  assumes "findIndex (\<lambda>p. sp_id p = i) (loadJSON (schedule_file fs) []) = None"
  shows "cancelPost i now fs = (None, fs)"
  using assms by (simp add: cancelPost_def Let_def)

lemma markPosted_not_found:
  assumes "findIndex (\<lambda>p. sp_id p = i) (loadJSON (schedule_file fs) []) = None"
  shows "markPosted i url_arg now fs = (None, fs)"
  using assms by (simp add: markPosted_def Let_def)

lemma findIndex_first:
  "k < length xs \<Longrightarrow> P (xs ! k) \<Longrightarrow> (\<forall>j<k. \<not> P (xs ! j)) \<Longrightarrow> findIndex P xs = Some k"
proof (induction xs arbitrary: k)
  case Nil
  then show ?case by simp
next
  case (Cons x xs)
  show ?case
  proof (cases k)
    case 0
    then show ?thesis using Cons.prems by simp
  next
    case (Suc k')
    have nx: "\<not> P x" using Cons.prems(3) Suc by auto
    have "\<forall>j<k'. \<not> P (xs ! j)"
    proof (intro allI impI)
      fix j assume "j < k'"
      then have "Suc j < k" using Suc by simp
      with Cons.prems(3) have "\<not> P ((x # xs) ! Suc j)" by blast
      then show "\<not> P (xs ! j)" by simp
    qed
    with Cons.IH [of k'] Cons.prems Suc have "findIndex P xs = Some k'" by simp
    then show ?thesis using nx Suc by simp
  qed
qed

lemma addScheduledPost_valid:
  assumes "valid_date t"
  shows "\<exists>p. addScheduledPost new_id now subreddit ttl cont (Some t) fs
               = Inr (p, fs\<lparr> schedule_file := Some (loadJSON (schedule_file fs) [] @ [p]) \<rparr>)
             \<and> sp_id p = new_id \<and> status p = Pending \<and> scheduledTime p = t
             \<and> cancelledAt p = None \<and> postedAt p = None"
  using assms by (simp add: addScheduledPost_def Let_def)

text \<open>
  Claim C10. When no stored post has the id, \<open>cancelPost\<close> and \<open>markPosted\<close> return
  \<open>null\<close>, and when no stored alert has it, \<open>toggleAlert\<close> does; the files are exactly as
  before.
\<close>

theorem C10_unknown_id_changes_nothing:
  "((\<forall>p\<in>set (loadJSON (schedule_file fs) []). sp_id p \<noteq> i) \<longrightarrow>
      cancelPost i now fs = (None, fs) \<and> markPosted i url_arg now fs = (None, fs))
   \<and> ((\<forall>a\<in>set (loadJSON (alerts_file fs) []). alert_id a \<noteq> i) \<longrightarrow>
      toggleAlert i en fs = (None, fs))"
  by (simp add: cancelPost_def markPosted_def toggleAlert_def Let_def findIndex_None_iff [THEN iffD2])

theorem C10_unknown_id_changes_nothing_witness:
  "cancelPost ''zz'' 7 one_post_files = (None, one_post_files)
   \<and> markPosted ''zz'' None 7 one_post_files = (None, one_post_files)
   \<and> toggleAlert ''zz'' False one_post_files = (None, one_post_files)"
  using C10_unknown_id_changes_nothing [of one_post_files "''zz''" 7 None False]
  by (simp add: one_post_files_def saas_alert_def loadJSON_def)


text \<open>
  Claim C3, as the code has it. \<open>cancelPost\<close> and \<open>markPosted\<close> act on the first stored
  post that has the id, whatever its status is: neither function looks at it, so posted
  and cancelled are not terminal. \<open>cancelPost\<close> sets the status of that post to cancelled
  and its \<open>cancelledAt\<close> to the time of the call; \<open>markPosted\<close> sets the status to posted
  and \<open>postedAt\<close> to the time of the call, sets \<open>redditUrl\<close> when a URL is given, and
  appends the post to the history; both return the post, leave every other post and the
  order as they are, and change nothing when no post has the id. \<open>addScheduledPost\<close> with
  a valid date appends one pending post and leaves the others as they are; with no valid
  date it throws and writes nothing. \<open>getDuePosts\<close> returns the pending posts whose time
  has come, in order, so never a cancelled or a posted one.
\<close>

theorem C3_status_changes:
  "(let posts = loadJSON (schedule_file fs) [];
        c = (\<lambda>p. p\<lparr> status := Cancelled, cancelledAt := Some now \<rparr>);
        m = (\<lambda>p. if url_arg = None \<or> url_arg = Some []
                  then p\<lparr> status := Posted, postedAt := Some now \<rparr>
                  else p\<lparr> status := Posted, postedAt := Some now, redditUrl := url_arg \<rparr>)
    in (\<forall>k. k < length posts \<and> sp_id (posts ! k) = i \<and> (\<forall>j<k. sp_id (posts ! j) \<noteq> i) \<longrightarrow>
            cancelPost i now fs
              = (Some (c (posts ! k)), fs\<lparr> schedule_file := Some (posts[k := c (posts ! k)]) \<rparr>)
          \<and> markPosted i url_arg now fs
              = (Some (m (posts ! k)),
                 fs\<lparr> schedule_file := Some (posts[k := m (posts ! k)]),
                     history_file := Some (loadJSON (history_file fs) [] @ [m (posts ! k)]) \<rparr>))
     \<and> ((\<forall>p\<in>set posts. sp_id p \<noteq> i) \<longrightarrow>
            cancelPost i now fs = (None, fs) \<and> markPosted i url_arg now fs = (None, fs))
     \<and> (\<forall>t. valid_date t \<longrightarrow>
            (\<exists>p. addScheduledPost new_id now subreddit ttl cont (Some t) fs
                    = Inr (p, fs\<lparr> schedule_file := Some (posts @ [p]) \<rparr>)
                \<and> sp_id p = new_id \<and> status p = Pending \<and> scheduledTime p = t
                \<and> cancelledAt p = None \<and> postedAt p = None))
     \<and> (\<forall>t. \<not> valid_date t \<longrightarrow>
            addScheduledPost new_id now subreddit ttl cont (Some t) fs = Inl RangeError)
     \<and> addScheduledPost new_id now subreddit ttl cont None fs = Inl RangeError
     \<and> (\<forall>t. getDuePosts t fs = filter (\<lambda>p. status p = Pending \<and> scheduledTime p \<le> t) posts
            \<and> (\<forall>p\<in>set (getDuePosts t fs). status p \<noteq> Cancelled \<and> status p \<noteq> Posted)))"
proof -
  define posts where "posts = loadJSON (schedule_file fs) []"
  define c where "c = (\<lambda>p::scheduled_post. p\<lparr> status := Cancelled, cancelledAt := Some now \<rparr>)"
  define m where "m = (\<lambda>p::scheduled_post. if url_arg = None \<or> url_arg = Some []
                  then p\<lparr> status := Posted, postedAt := Some now \<rparr>
                  else p\<lparr> status := Posted, postedAt := Some now, redditUrl := url_arg \<rparr>)"
  have found: "cancelPost i now fs
              = (Some (c (posts ! k)), fs\<lparr> schedule_file := Some (posts[k := c (posts ! k)]) \<rparr>)
          \<and> markPosted i url_arg now fs
              = (Some (m (posts ! k)),
                 fs\<lparr> schedule_file := Some (posts[k := m (posts ! k)]),
                     history_file := Some (loadJSON (history_file fs) [] @ [m (posts ! k)]) \<rparr>)"
    if h: "k < length posts \<and> sp_id (posts ! k) = i \<and> (\<forall>j<k. sp_id (posts ! j) \<noteq> i)" for k
  proof -
    have f: "findIndex (\<lambda>p. sp_id p = i) (loadJSON (schedule_file fs) []) = Some k"
      using h unfolding posts_def by (intro findIndex_first) simp_all
    have "cancelPost i now fs
              = (Some (c (posts ! k)), fs\<lparr> schedule_file := Some (posts[k := c (posts ! k)]) \<rparr>)"
      unfolding posts_def c_def by (rule cancelPost_found [OF f])
    moreover have "markPosted i url_arg now fs
              = (Some (m (posts ! k)),
                 fs\<lparr> schedule_file := Some (posts[k := m (posts ! k)]),
                     history_file := Some (loadJSON (history_file fs) [] @ [m (posts ! k)]) \<rparr>)"
      using f unfolding posts_def m_def
      by (cases url_arg) (simp_all add: markPosted_def Let_def)
    ultimately show ?thesis by simp
  qed
  have missing: "cancelPost i now fs = (None, fs) \<and> markPosted i url_arg now fs = (None, fs)"
    if "\<forall>p\<in>set posts. sp_id p \<noteq> i"
  proof -
    have "findIndex (\<lambda>p. sp_id p = i) (loadJSON (schedule_file fs) []) = None"
      using that unfolding posts_def by (simp add: findIndex_None_iff)
    then show ?thesis by (simp add: cancelPost_not_found markPosted_not_found)
  qed
  have add: "\<exists>p. addScheduledPost new_id now subreddit ttl cont (Some t) fs
                    = Inr (p, fs\<lparr> schedule_file := Some (posts @ [p]) \<rparr>)
                \<and> sp_id p = new_id \<and> status p = Pending \<and> scheduledTime p = t
                \<and> cancelledAt p = None \<and> postedAt p = None" if "valid_date t" for t
    unfolding posts_def using that by (rule addScheduledPost_valid)
  have bad: "addScheduledPost new_id now subreddit ttl cont (Some t) fs = Inl RangeError"
    if "\<not> valid_date t" for t
    using that by (simp add: addScheduledPost_def Let_def)
  have none: "addScheduledPost new_id now subreddit ttl cont None fs = Inl RangeError"
    by (simp add: addScheduledPost_def Let_def)
  have due: "getDuePosts t fs = filter (\<lambda>p. status p = Pending \<and> scheduledTime p \<le> t) posts
            \<and> (\<forall>p\<in>set (getDuePosts t fs). status p \<noteq> Cancelled \<and> status p \<noteq> Posted)" for t
    unfolding posts_def by (simp add: getDuePosts_def)
  show ?thesis
    unfolding Let_def posts_def [symmetric] c_def [symmetric] m_def [symmetric]
    using found missing add bad none due by blast
qed

theorem C3_status_changes_witness:
  "map status (loadJSON (schedule_file posted_post_files) []) = [Posted]
   \<and> map status (loadJSON (schedule_file (snd (cancelPost ''p1'' 9 posted_post_files))) []) = [Cancelled]
   \<and> map cancelledAt (loadJSON (schedule_file (snd (cancelPost ''p1'' 9 posted_post_files))) []) = [Some 9]
   \<and> map postedAt (loadJSON (schedule_file (snd (markPosted ''p1'' None 9 posted_post_files))) []) = [Some 9]
   \<and> cancelPost ''zz'' 9 posted_post_files = (None, posted_post_files)
   \<and> map status (loadJSON (schedule_file (snd (projr
         (addScheduledPost ''p2'' 9 ''SaaS'' ''Again'' ''More'' (Some 20) posted_post_files)))) [])
       = [Posted, Pending]
   \<and> addScheduledPost ''p2'' 9 ''SaaS'' ''Again'' ''More'' (Some 10000000000000000) posted_post_files
       = Inl RangeError
   \<and> getDuePosts 100 (snd (cancelPost ''p1'' 9 one_post_files)) = []"
proof -
  have h1: "0 < length (loadJSON (schedule_file posted_post_files) [])
      \<and> sp_id (loadJSON (schedule_file posted_post_files) [] ! 0) = ''p1''
      \<and> (\<forall>j<0::nat. sp_id (loadJSON (schedule_file posted_post_files) [] ! j) \<noteq> ''p1'')"
    by (simp add: posted_post_files_def loadJSON_def)
  have h2: "\<forall>p\<in>set (loadJSON (schedule_file posted_post_files) []). sp_id p \<noteq> ''zz''"
    by (simp add: posted_post_files_def loadJSON_def)
  have h3: "valid_date 20" "\<not> valid_date 10000000000000000" by (simp_all add: valid_date_def)
  have h4: "0 < length (loadJSON (schedule_file one_post_files) [])
      \<and> sp_id (loadJSON (schedule_file one_post_files) [] ! 0) = ''p1''
      \<and> (\<forall>j<0::nat. sp_id (loadJSON (schedule_file one_post_files) [] ! j) \<noteq> ''p1'')"
    by (simp add: one_post_files_def loadJSON_def)
  note a = C3_status_changes [where fs = posted_post_files and i = "''p1''" and now = 9 and url_arg = None
      and new_id = "''p2''" and subreddit = "''SaaS''" and ttl = "''Again''" and cont = "''More''",
      unfolded Let_def]
  note b = C3_status_changes [where fs = posted_post_files and i = "''zz''" and now = 9 and url_arg = None,
      unfolded Let_def]
  note c = C3_status_changes [where fs = one_post_files and i = "''p1''" and now = 9 and url_arg = None,
      unfolded Let_def]
  from a h1 have c1: "cancelPost ''p1'' 9 posted_post_files
      = (Some ((loadJSON (schedule_file posted_post_files) [] ! 0)\<lparr> status := Cancelled, cancelledAt := Some 9 \<rparr>),
         posted_post_files\<lparr> schedule_file := Some ((loadJSON (schedule_file posted_post_files) [])
            [0 := (loadJSON (schedule_file posted_post_files) [] ! 0)\<lparr> status := Cancelled, cancelledAt := Some 9 \<rparr>]) \<rparr>)"
    by blast
  from a h1 have m1: "markPosted ''p1'' None 9 posted_post_files
      = (Some ((loadJSON (schedule_file posted_post_files) [] ! 0)\<lparr> status := Posted, postedAt := Some 9 \<rparr>),
         posted_post_files\<lparr> schedule_file := Some ((loadJSON (schedule_file posted_post_files) [])
            [0 := (loadJSON (schedule_file posted_post_files) [] ! 0)\<lparr> status := Posted, postedAt := Some 9 \<rparr>]),
            history_file := Some (loadJSON (history_file posted_post_files) []
               @ [(loadJSON (schedule_file posted_post_files) [] ! 0)\<lparr> status := Posted, postedAt := Some 9 \<rparr>]) \<rparr>)"
    by simp
  from b h2 have z: "cancelPost ''zz'' 9 posted_post_files = (None, posted_post_files)" by blast
  from a h3(1) obtain p where p:
    "addScheduledPost ''p2'' 9 ''SaaS'' ''Again'' ''More'' (Some 20) posted_post_files
       = Inr (p, posted_post_files\<lparr> schedule_file := Some (loadJSON (schedule_file posted_post_files) [] @ [p]) \<rparr>)"
    "status p = Pending" by blast
  from a h3(2) have r: "addScheduledPost ''p2'' 9 ''SaaS'' ''Again'' ''More'' (Some 10000000000000000) posted_post_files
       = Inl RangeError" by blast
  from c h4 have c2: "cancelPost ''p1'' 9 one_post_files
      = (Some ((loadJSON (schedule_file one_post_files) [] ! 0)\<lparr> status := Cancelled, cancelledAt := Some 9 \<rparr>),
         one_post_files\<lparr> schedule_file := Some ((loadJSON (schedule_file one_post_files) [])
            [0 := (loadJSON (schedule_file one_post_files) [] ! 0)\<lparr> status := Cancelled, cancelledAt := Some 9 \<rparr>]) \<rparr>)"
    by blast
  show ?thesis
    unfolding c1 m1 z p r c2
    using p(2) by (simp add: posted_post_files_def one_post_files_def loadJSON_def getDuePosts_def)
qed

text \<open>
  Claim C3 as stated fails: a post that was marked posted is cancelled by a later
  \<open>cancelPost\<close>, so posted is not terminal.
\<close>

theorem C3_counterexample:
  "map status (loadJSON (schedule_file
      (run_command 2 (MarkPosted ''p1'' None)
        (run_command 1 (Add ''p1'' ''SaaS'' ''My Launch'' ''Check out my app'' (Some 5)) no_files))) [])
     = [Posted]
   \<and> map status (loadJSON (schedule_file
      (run_command 3 (Cancel ''p1'')
        (run_command 2 (MarkPosted ''p1'' None)
          (run_command 1 (Add ''p1'' ''SaaS'' ''My Launch'' ''Check out my app'' (Some 5)) no_files)))) [])
     = [Cancelled]"
  by (simp add: no_files_def addScheduledPost_def markPosted_def cancelPost_def loadJSON_def
      valid_date_def Let_def)


section \<open>The two check cycles on the same data\<close>

text \<open>
  Claim C1 fails on the code. One alert on \<open>looking for\<close> and \<open>need help\<close> over \<open>SaaS\<close>,
  and one fetched post titled \<open>Looking for a CRM alternative\<close>: \<open>checkAlerts\<close> of
  scheduler.js reports the post in the first cycle and again in the second, and the
  alert's \<open>matchCount\<close> is 2 after the two cycles. \<open>checkAlerts\<close> of notify.js reports
  the post once and nothing in the second cycle; it updates no alert.
\<close>

theorem C1_scheduler_repeats_matches:
  "map match_post_id (matches (fst (checkAlerts saas_fetch 2000000 one_post_files))) = [''p1'']
   \<and> map match_post_id
         (matches (fst (checkAlerts saas_fetch 3000000 (snd (checkAlerts saas_fetch 2000000 one_post_files)))))
       = [''p1'']
   \<and> map matchCount
         (loadJSON (alerts_file (snd (checkAlerts saas_fetch 3000000
                                        (snd (checkAlerts saas_fetch 2000000 one_post_files))))) [])
       = [2]
   \<and> map nm_title (fst (notify_checkAlerts (Some [saas_alert]) None saas_fetch))
       = [''Looking for a CRM alternative'']
   \<and> fst (notify_checkAlerts (Some [saas_alert])
            (snd (notify_checkAlerts (Some [saas_alert]) None saas_fetch)) saas_fetch) = []"
  by code_simp


end
